theory Spec2Isabelle
  imports Main "HOL-Library.Word" "HOL-Library.Log_Nat"
begin

section \<open>Linked blocks\<close>

text \<open>
  The embedding follows \<^verbatim>\<open>src/hnsw/hnsw_index.cpp\<close>. \<^verbatim>\<open>idx_t\<close> values are natural
  numbers: the counts and offsets of the code stay far below \<open>2^64\<close>, and the only
  subtractions, \<^verbatim>\<open>length - bytes_read\<close> under the loop condition and
  \<^verbatim>\<open>BLOCK_DATA_SIZE - position_in_block\<close> with the position inside the block, do not go
  below zero. An \<^verbatim>\<open>IndexPointer\<close> is its 64-bit \<^verbatim>\<open>data\<close> word, read as a natural number,
  with \<open>0\<close> the value that \<^verbatim>\<open>Clear()\<close> stores. A \<^verbatim>\<open>char\<close> is an 8-bit word.

  \<^verbatim>\<open>Storage::BLOCK_SIZE\<close> is a constant of the host and not part of the sources: every
  definition takes it as its first parameter \<open>sbs\<close>. \<^verbatim>\<open>sizeof(validity_t)\<close> and
  \<^verbatim>\<open>sizeof(IndexPointer)\<close> are both 8 (two 64-bit words).
\<close>

type_synonym idx_t = nat
type_synonym IndexPointer = nat
type_synonym byte = "8 word"

definition sizeof_validity_t :: nat where
  "sizeof_validity_t = 8"

definition sizeof_IndexPointer :: nat where
  "sizeof_IndexPointer = 8"

definition BLOCK_SIZE :: "nat \<Rightarrow> idx_t" where
  "BLOCK_SIZE sbs = sbs - sizeof_validity_t"

definition BLOCK_DATA_SIZE :: "nat \<Rightarrow> idx_t" where
  "BLOCK_DATA_SIZE sbs = BLOCK_SIZE sbs - sizeof_IndexPointer"

text \<open>The \<^verbatim>\<open>static_assert\<close> of class \<^verbatim>\<open>LinkedBlock\<close>: the program only exists for host
  block sizes that satisfy it.\<close>

definition LinkedBlock_static_assert :: "nat \<Rightarrow> bool" where
  "LinkedBlock_static_assert sbs \<longleftrightarrow> BLOCK_SIZE sbs > sizeof_IndexPointer"

record LinkedBlock =
  next_block :: IndexPointer
  data :: "byte list"

datatype error =
    InvalidIndexPointer
  | InternalException string
  | NotImplementedException string

subsection \<open>The fixed-size allocator\<close>

text \<open>
  Modelled from the spec: the host's \<^verbatim>\<open>FixedSizeAllocator\<close> (``Fixed-Size Block Allocator
  (external collaborator, not reimplemented): provides typed block allocation, pointer
  validity, and serialization-to-disk primitives'') is not part of the sources. It is a store
  of segments, each holding one \<^verbatim>\<open>LinkedBlock\<close>. The segments allocated so far are kept in
  allocation order; the pointer of the \<open>i\<close>-th one is \<open>first_pointer + i\<close>, so that nothing
  is fixed about whether the first pointer handed out is \<open>0\<close>. The host's \<^verbatim>\<open>Get\<close> does
  not look at whether a pointer is in use: it computes an address from the pointer and
  returns it. \<open>unowned\<close> is what lies at the addresses of the pointers that are not in use,
  read as a \<^verbatim>\<open>LinkedBlock\<close>; nothing is known about it, and no operation of the model
  changes it.
\<close>

record FixedSizeAllocator =
  segments :: "LinkedBlock list"
  first_pointer :: nat
  unowned :: "IndexPointer \<Rightarrow> LinkedBlock"

text \<open>Modelled from the spec: \<^verbatim>\<open>Get\<close> of the host's allocator (``pointer validity''), the
  block behind a pointer that is in use. The writer goes through it: it only writes through
  the root pointer and the pointers that \<^verbatim>\<open>New\<close> returned, and a write through any other
  pointer is reported as \<open>InvalidIndexPointer\<close>.\<close>

definition Get :: "FixedSizeAllocator \<Rightarrow> IndexPointer \<Rightarrow> LinkedBlock option" where
  "Get a p =
     (if first_pointer a \<le> p \<and> p - first_pointer a < length (segments a)
      then Some (segments a ! (p - first_pointer a)) else None)"

text \<open>Modelled from the spec: \<^verbatim>\<open>Get\<close> of the host's allocator as the reader calls it,
  with no check of the pointer (``block pointers are followed without validity checks''):
  behind a pointer that is not in use it returns what lies there.\<close>

definition Get_unchecked :: "FixedSizeAllocator \<Rightarrow> IndexPointer \<Rightarrow> LinkedBlock" where
  "Get_unchecked a p = (case Get a p of Some b \<Rightarrow> b | None \<Rightarrow> unowned a p)"

text \<open>Modelled from the spec: a write through the pointer that \<^verbatim>\<open>Get\<close> returned (the
  blocks are the allocator's storage, changed in place).\<close>

definition Put :: "FixedSizeAllocator \<Rightarrow> IndexPointer \<Rightarrow> LinkedBlock \<Rightarrow> FixedSizeAllocator" where
  "Put a p b = a\<lparr>segments := (segments a)[p - first_pointer a := b]\<rparr>"

text \<open>Modelled from the spec: \<^verbatim>\<open>New\<close> of the host's allocator (``typed block allocation''):
  a pointer that is not in use, to a new segment. The callers overwrite the whole
  segment before they read it; it starts zeroed here.\<close>

definition New :: "nat \<Rightarrow> FixedSizeAllocator \<Rightarrow> IndexPointer \<times> FixedSizeAllocator" where
  "New sbs a =
     (first_pointer a + length (segments a),
      a\<lparr>segments := segments a @ [\<lparr>next_block = 0, data = replicate (BLOCK_DATA_SIZE sbs) 0\<rparr>]\<rparr>)"


subsection \<open>LinkedBlockReader\<close>

record LinkedBlockReader =
  rd_root_pointer :: IndexPointer
  rd_current_pointer :: IndexPointer
  rd_position_in_block :: idx_t

definition LinkedBlockReader_new :: "IndexPointer \<Rightarrow> LinkedBlockReader" where
  "LinkedBlockReader_new root_pointer =
     \<lparr>rd_root_pointer = root_pointer, rd_current_pointer = root_pointer,
      rd_position_in_block = 0\<rparr>"

definition Reset_reader :: "LinkedBlockReader \<Rightarrow> LinkedBlockReader" where
  "Reset_reader r = r\<lparr>rd_current_pointer := rd_root_pointer r, rd_position_in_block := 0\<rparr>"

text \<open>
  The loop of \<^verbatim>\<open>ReadData\<close>. \<open>buffer\<close> holds the \<open>bytes_read\<close> bytes copied so far
  (\<^verbatim>\<open>memcpy(buffer + bytes_read, ...)\<close> appends to them). The loop has no bound of its
  own, so it is a partial function: \<open>None\<close> means that it does not return. The current
  pointer is not checked (\<^verbatim>\<open>// TODO: Check if current pointer is valid\<close>), so no
  iteration fails: the result is never \<open>Inl\<close>. The result type keeps the error case
  because the engine's \<^verbatim>\<open>load_from_stream\<close>, which calls the loop through its callback,
  can fail.
\<close>

partial_function (option) ReadData_loop ::
  "nat \<Rightarrow> FixedSizeAllocator \<Rightarrow> LinkedBlockReader \<Rightarrow> byte list \<Rightarrow> idx_t \<Rightarrow> idx_t
     \<Rightarrow> (error + idx_t \<times> byte list \<times> LinkedBlockReader) option" where
  "ReadData_loop sbs a r buffer len bytes_read =
     (if bytes_read < len then
        (let block = Get_unchecked a (rd_current_pointer r);
             block_data = data block;
             data_to_read = min (len - bytes_read)
                                (BLOCK_DATA_SIZE sbs - rd_position_in_block r);
             buffer' = buffer @ take data_to_read (drop (rd_position_in_block r) block_data);
             bytes_read' = bytes_read + data_to_read;
             r' = r\<lparr>rd_position_in_block := rd_position_in_block r + data_to_read\<rparr>;
             r'' = (if rd_position_in_block r' = BLOCK_DATA_SIZE sbs
                    then r'\<lparr>rd_position_in_block := 0,
                            rd_current_pointer := next_block block\<rparr>
                    else r')
         in ReadData_loop sbs a r'' buffer' len bytes_read')
      else Some (Inr (bytes_read, buffer, r)))"

declare ReadData_loop.simps [code]

definition ReadData ::
  "nat \<Rightarrow> FixedSizeAllocator \<Rightarrow> LinkedBlockReader \<Rightarrow> idx_t
     \<Rightarrow> (error + idx_t \<times> byte list \<times> LinkedBlockReader) option" where
  "ReadData sbs a r len = ReadData_loop sbs a r [] len 0"

subsection \<open>LinkedBlockWriter\<close>

record LinkedBlockWriter =
  wr_root_pointer :: IndexPointer
  wr_current_pointer :: IndexPointer
  wr_position_in_block :: idx_t

definition LinkedBlockWriter_new :: "IndexPointer \<Rightarrow> LinkedBlockWriter" where
  "LinkedBlockWriter_new root_pointer =
     \<lparr>wr_root_pointer = root_pointer, wr_current_pointer = root_pointer,
      wr_position_in_block = 0\<rparr>"

definition ClearCurrentBlock ::
  "nat \<Rightarrow> FixedSizeAllocator \<Rightarrow> LinkedBlockWriter \<Rightarrow> error + FixedSizeAllocator" where
  "ClearCurrentBlock sbs a w =
     (case Get a (wr_current_pointer w) of
        None \<Rightarrow> Inl InvalidIndexPointer
      | Some block \<Rightarrow>
          Inr (Put a (wr_current_pointer w)
                 (block\<lparr>next_block := 0, data := replicate (BLOCK_DATA_SIZE sbs) 0\<rparr>)))"

definition Reset_writer ::
  "nat \<Rightarrow> FixedSizeAllocator \<Rightarrow> LinkedBlockWriter
     \<Rightarrow> error + FixedSizeAllocator \<times> LinkedBlockWriter" where
  "Reset_writer sbs a w =
     (let w' = w\<lparr>wr_current_pointer := wr_root_pointer w, wr_position_in_block := 0\<rparr>
      in case ClearCurrentBlock sbs a w' of
           Inl e \<Rightarrow> Inl e
         | Inr a' \<Rightarrow> Inr (a', w'))"

text \<open>
  The loop of \<^verbatim>\<open>WriteData\<close>. \<^verbatim>\<open>memcpy(block_data + position_in_block, buffer +
  bytes_written, data_to_write)\<close> overwrites \<open>data_to_write\<close> bytes of the block's payload
  from \<open>position_in_block\<close> on.
\<close>

partial_function (option) WriteData_loop ::
  "nat \<Rightarrow> FixedSizeAllocator \<Rightarrow> LinkedBlockWriter \<Rightarrow> byte list \<Rightarrow> idx_t \<Rightarrow> idx_t
     \<Rightarrow> (error + FixedSizeAllocator \<times> LinkedBlockWriter) option" where
  "WriteData_loop sbs a w buffer len bytes_written =
     (if bytes_written < len then
        (case Get a (wr_current_pointer w) of
           None \<Rightarrow> Some (Inl InvalidIndexPointer)
         | Some block \<Rightarrow>
             (let block_data = data block;
                  data_to_write = min (len - bytes_written)
                                      (BLOCK_DATA_SIZE sbs - wr_position_in_block w);
                  block_data' = take (wr_position_in_block w) block_data
                                @ take data_to_write (drop bytes_written buffer)
                                @ drop (wr_position_in_block w + data_to_write) block_data;
                  a1 = Put a (wr_current_pointer w) (block\<lparr>data := block_data'\<rparr>);
                  bytes_written' = bytes_written + data_to_write;
                  w1 = w\<lparr>wr_position_in_block := wr_position_in_block w + data_to_write\<rparr>
              in if wr_position_in_block w1 = BLOCK_DATA_SIZE sbs then
                   (let (p, a2) = New sbs a1;
                        a3 = Put a2 (wr_current_pointer w)
                               (block\<lparr>data := block_data', next_block := p\<rparr>);
                        w2 = w1\<lparr>wr_position_in_block := 0, wr_current_pointer := p\<rparr>
                    in case ClearCurrentBlock sbs a3 w2 of
                         Inl e \<Rightarrow> Some (Inl e)
                       | Inr a4 \<Rightarrow> WriteData_loop sbs a4 w2 buffer len bytes_written')
                 else WriteData_loop sbs a1 w1 buffer len bytes_written'))
      else Some (Inr (a, w)))"

declare WriteData_loop.simps [code]

definition WriteData ::
  "nat \<Rightarrow> FixedSizeAllocator \<Rightarrow> LinkedBlockWriter \<Rightarrow> byte list
     \<Rightarrow> (error + FixedSizeAllocator \<times> LinkedBlockWriter) option" where
  "WriteData sbs a w buffer = WriteData_loop sbs a w buffer (length buffer) 0"

subsection \<open>What a chain of blocks holds\<close>

text \<open>
  \<open>stream_at sbs a p xs cur pos\<close>: in allocator \<open>a\<close>, the chain that starts at block \<open>p\<close>
  holds the byte stream \<open>xs\<close>, every block before \<open>cur\<close> being full, and the stream ends in
  block \<open>cur\<close> at offset \<open>pos\<close>; the rest of block \<open>cur\<close> is zero and its forward pointer
  is clear. This is the state a writer at \<open>(cur, pos)\<close> leaves behind.
\<close>

inductive stream_at ::
  "nat \<Rightarrow> FixedSizeAllocator \<Rightarrow> IndexPointer \<Rightarrow> byte list \<Rightarrow> IndexPointer \<Rightarrow> idx_t \<Rightarrow> bool"
  for sbs :: nat and a :: FixedSizeAllocator where
  last_block:
    "Get a p = Some b \<Longrightarrow> length (data b) = BLOCK_DATA_SIZE sbs
       \<Longrightarrow> length xs < BLOCK_DATA_SIZE sbs \<Longrightarrow> take (length xs) (data b) = xs
       \<Longrightarrow> next_block b = 0
       \<Longrightarrow> drop (length xs) (data b) = replicate (BLOCK_DATA_SIZE sbs - length xs) 0
       \<Longrightarrow> stream_at sbs a p xs p (length xs)"
| full_block:
    "Get a p = Some b \<Longrightarrow> data b = xs \<Longrightarrow> length xs = BLOCK_DATA_SIZE sbs \<Longrightarrow> p \<noteq> cur
       \<Longrightarrow> stream_at sbs a (next_block b) ys cur pos
       \<Longrightarrow> stream_at sbs a p (xs @ ys) cur pos"

text \<open>The block reached from \<open>p\<close> after following \<open>n\<close> forward pointers.\<close>

fun follow :: "FixedSizeAllocator \<Rightarrow> IndexPointer \<Rightarrow> nat \<Rightarrow> IndexPointer option" where
  "follow a p 0 = Some p"
| "follow a p (Suc n) =
     (case Get a p of None \<Rightarrow> None | Some b \<Rightarrow> follow a (next_block b) n)"

text \<open>
  Modelled from the spec: what a read of \<open>n\<close> bytes at offset \<open>pos\<close> of block \<open>p\<close> has to
  deliver (``reads traverse the chain by following forward pointers'', ``block pointers are
  followed without validity checks''), one byte at a time: the byte at the offset, then the
  bytes from the next offset on, which is offset \<open>0\<close> of the block behind the forward
  pointer when the payload of the block is used up. \<open>chain_bytes\<close> is the bytes, and
  \<open>chain_end\<close> the block and the offset after the last of them.
\<close>

fun chain_bytes ::
  "nat \<Rightarrow> FixedSizeAllocator \<Rightarrow> IndexPointer \<Rightarrow> idx_t \<Rightarrow> nat \<Rightarrow> byte list" where
  "chain_bytes sbs a p pos 0 = []"
| "chain_bytes sbs a p pos (Suc n) =
     data (Get_unchecked a p) ! pos
     # (if Suc pos = BLOCK_DATA_SIZE sbs
        then chain_bytes sbs a (next_block (Get_unchecked a p)) 0 n
        else chain_bytes sbs a p (Suc pos) n)"

fun chain_end ::
  "nat \<Rightarrow> FixedSizeAllocator \<Rightarrow> IndexPointer \<Rightarrow> idx_t \<Rightarrow> nat \<Rightarrow> IndexPointer \<times> idx_t" where
  "chain_end sbs a p pos 0 = (p, pos)"
| "chain_end sbs a p pos (Suc n) =
     (if Suc pos = BLOCK_DATA_SIZE sbs
      then chain_end sbs a (next_block (Get_unchecked a p)) 0 n
      else chain_end sbs a p (Suc pos) n)"

text \<open>The payload of a \<^verbatim>\<open>LinkedBlock\<close> is the array \<^verbatim>\<open>char data[BLOCK_DATA_SIZE]\<close>: every
  block of the allocator, in use or not, has \<open>BLOCK_DATA_SIZE\<close> bytes of payload.\<close>

definition full_payload :: "nat \<Rightarrow> FixedSizeAllocator \<Rightarrow> bool" where
  "full_payload sbs a \<longleftrightarrow>
     (\<forall>p. length (data (Get_unchecked a p)) = BLOCK_DATA_SIZE sbs)"

section \<open>The graph engine\<close>

text \<open>
  Modelled from the spec: the graph engine (\<^verbatim>\<open>unum::usearch::index_dense_t\<close>, included from
  \<^verbatim>\<open>usearch/index_dense.hpp\<close>) is not part of the sources. The spec treats it as ``an
  opaque capability providing: insert, search, remove, reserve, compact,
  save-to-stream(callback), load-from-stream(callback), size, capacity'', and the index
  ``never depends on its internals''. It is therefore a parameter \<open>U\<close> of the model: a record
  of operations on an engine state of type \<open>'e\<close>, over vectors of type \<open>'v\<close> and a creation
  configuration of type \<open>'c\<close> (metric and \<^verbatim>\<open>index_dense_config_t\<close>).

  \<^item> \<open>e_add\<close>, \<open>e_remove\<close> and \<open>e_compact\<close> return the engine after the call together with
    the result's error: \<open>None\<close> when the result converts to \<^verbatim>\<open>true\<close>, \<open>Some what\<close>
    otherwise.
  \<^item> \<open>e_save_to_stream\<close> is the sequence of buffers the engine hands to the output callback
    (the callback of \<^verbatim>\<open>PersistToDisk\<close> always returns \<^verbatim>\<open>true\<close>).
  \<^item> \<open>e_load_from_stream\<close> receives the input callback and the state of the stream it reads.
  \<^item> \<open>e_contains\<close> says which row identifiers the engine holds.
\<close>

type_synonym row_t = "64 word"

type_synonym stream_callback =
  "nat \<Rightarrow> LinkedBlockReader \<Rightarrow> (error + bool \<times> byte list \<times> LinkedBlockReader) option"

record ('e, 'v, 'c) index_dense_t =
  e_make :: "'c \<Rightarrow> 'e"
  e_size :: "'e \<Rightarrow> nat"
  e_capacity :: "'e \<Rightarrow> nat"
  e_contains :: "'e \<Rightarrow> row_t \<Rightarrow> bool"
  e_reserve :: "'e \<Rightarrow> nat \<Rightarrow> 'e"
  e_add :: "'e \<Rightarrow> row_t \<Rightarrow> 'v \<Rightarrow> nat \<Rightarrow> string option \<times> 'e"
  e_remove :: "'e \<Rightarrow> row_t \<Rightarrow> string option \<times> 'e"
  e_compact :: "'e \<Rightarrow> string option \<times> 'e"
  e_reset :: "'e \<Rightarrow> 'e"
  e_search :: "'e \<Rightarrow> 'v \<Rightarrow> nat \<Rightarrow> row_t list"
  e_save_to_stream :: "'e \<Rightarrow> byte list list"
  e_load_from_stream :: "'e \<Rightarrow> stream_callback \<Rightarrow> LinkedBlockReader \<Rightarrow> (error + 'e) option"

text \<open>
  Modelled from the spec: \<^verbatim>\<open>NextPowerOfTwo\<close> is a helper of the host (``grow capacity to the
  next power of two \<open>\<ge>\<close> the new element count''): the least power of two that is at least
  \<open>v\<close>. The 64-bit overflow of the host's helper above \<open>2^63\<close> is not modelled.
\<close>

definition NextPowerOfTwo :: "idx_t \<Rightarrow> idx_t" where
  "NextPowerOfTwo v = 2 ^ nat (bitlen (int v - 1))"

section \<open>HNSWIndex\<close>

text \<open>
  The fields of \<^verbatim>\<open>HNSWIndex\<close> that the methods below read or write. The reader-writer lock
  \<^verbatim>\<open>rwlock\<close> is not a field of the model: the methods are modelled as they run when no
  other thread runs, where taking and releasing the lock changes nothing. The atomic
  \<^verbatim>\<open>index_size\<close> is then a plain \<^verbatim>\<open>idx_t\<close>. Which lock \<^verbatim>\<open>Construct\<close> holds at each of
  its steps is recorded by \<open>Construct_locks\<close> below.
\<close>

record 'e HNSWIndex =
  name :: string
  index :: 'e
  index_size :: idx_t
  is_dirty :: bool
  root_block_ptr :: IndexPointer
  linked_block_allocator :: FixedSizeAllocator

text \<open>A method that can throw returns \<open>Inl (e, s)\<close>: the exception \<open>e\<close>, and the state \<open>s\<close>
  the index is left in when it is thrown.\<close>

type_synonym 'e outcome = "(error \<times> 'e HNSWIndex) + 'e HNSWIndex"

datatype IndexConstraintType = NONE | UNIQUE | PRIMARY | FOREIGN

text \<open>
  Modelled from the spec: the host's \<^verbatim>\<open>IndexStorageInfo\<close> and \<^verbatim>\<open>FixedSizeAllocatorInfo\<close>
  (``storage descriptor: contains the root block pointer and the allocator's block-usage
  metadata (which physical blocks belong to this stream)'') are not part of the sources. The
  allocator metadata lists the buffers in use, one per segment here, and stands for the blocks
  it names and for the storage they lie in: \<open>Init\<close> gives back the allocator that \<open>GetInfo\<close>
  described. The constructor is given \<open>None\<close> for a descriptor whose \<^verbatim>\<open>IsValid()\<close> is
  false (a new index).
\<close>

record FixedSizeAllocatorInfo =
  buffer_ids :: "nat list"
  info_segments :: "LinkedBlock list"
  info_first_pointer :: nat
  info_unowned :: "IndexPointer \<Rightarrow> LinkedBlock"

record IndexStorageInfo =
  info_name :: string
  info_root :: idx_t
  allocator_infos :: "FixedSizeAllocatorInfo list"

text \<open>Modelled from the spec: \<^verbatim>\<open>GetInfo\<close> of the host's allocator, the metadata that names
  the blocks in use.\<close>

definition GetInfo :: "FixedSizeAllocator \<Rightarrow> FixedSizeAllocatorInfo" where
  "GetInfo a =
     \<lparr>buffer_ids = [0..<length (segments a)], info_segments = segments a,
      info_first_pointer = first_pointer a, info_unowned = unowned a\<rparr>"

text \<open>Modelled from the spec: \<^verbatim>\<open>Init\<close> of the host's allocator, which takes up the blocks
  that the metadata names.\<close>

definition Init :: "FixedSizeAllocatorInfo \<Rightarrow> FixedSizeAllocator" where
  "Init ai =
     \<lparr>segments = info_segments ai, first_pointer = info_first_pointer ai,
      unowned = info_unowned ai\<rparr>"

subsection \<open>Constructor\<close>

text \<open>The callback handed to \<^verbatim>\<open>load_from_stream\<close>:
  \<^verbatim>\<open>[&](void *data, size_t size) { return size == reader.ReadData(data, size); }\<close>,
  with \<open>sz\<close> for \<^verbatim>\<open>size\<close>.\<close>

definition load_callback :: "nat \<Rightarrow> FixedSizeAllocator \<Rightarrow> stream_callback" where
  "load_callback sbs a sz r =
     (case ReadData sbs a r sz of
        None \<Rightarrow> None
      | Some (Inl e) \<Rightarrow> Some (Inl e)
      | Some (Inr (n, buffer, r')) \<Rightarrow> Some (Inr (sz = n, buffer, r')))"

text \<open>Modelled from the spec: the storage that the allocator of a new index is made over
  (``typed block allocation''), where no pointer is in use yet: zeroed blocks.\<close>

definition fresh_memory :: "nat \<Rightarrow> IndexPointer \<Rightarrow> LinkedBlock" where
  "fresh_memory sbs = (\<lambda>p. \<lparr>next_block = 0, data = replicate (BLOCK_DATA_SIZE sbs) 0\<rparr>)"

text \<open>
  The constructor. \<open>cfg\<close> is the metric and configuration that the constructor computes from
  the column type and the options and passes to \<^verbatim>\<open>index_dense_t::make\<close>; \<open>first_ptr\<close> is
  the first pointer of the allocator made for the host's block manager. \<^verbatim>\<open>D_ASSERT\<close>
  compiles to nothing in a release build: the list \<^verbatim>\<open>info.allocator_infos\<close> is not
  checked to have one entry, and its entry \<open>0\<close> is taken whatever its length. Only the
  access to entry \<open>0\<close> of an empty list fails, in the bounds check of the host's vector
  (an \<open>InternalException\<close>). A new index is not dirty (spec: ``Initial state: Clean (new
  index) or Clean (freshly loaded index)'').
\<close>

definition HNSWIndex_new ::
  "('e, 'v, 'c) index_dense_t \<Rightarrow> nat \<Rightarrow> string \<Rightarrow> IndexConstraintType \<Rightarrow> nat \<Rightarrow> 'c
     \<Rightarrow> IndexStorageInfo option \<Rightarrow> idx_t \<Rightarrow> (error + 'e HNSWIndex) option" where
  "HNSWIndex_new U sbs nm index_constraint_type first_ptr cfg info estimated_cardinality =
     (if index_constraint_type \<noteq> NONE then
        Some (Inl (NotImplementedException
                ''HNSW indexes do not support unique or primary key constraints''))
      else
        (let s = \<lparr>name = nm, index = e_make U cfg, index_size = 0, is_dirty = False,
                  root_block_ptr = 0,
                  linked_block_allocator =
                    \<lparr>segments = [], first_pointer = first_ptr,
                     unowned = fresh_memory sbs\<rparr>\<rparr>
         in case info of
              Some info \<Rightarrow>
                (let s1 = s\<lparr>root_block_ptr := info_root info\<rparr>
                 in case allocator_infos info of
                      [] \<Rightarrow>
                        Some (Inl (InternalException
                                ''Attempted to access index 0 within vector of size 0''))
                    | ai # more_infos \<Rightarrow>
                      (let s2 = s1\<lparr>linked_block_allocator := Init ai\<rparr>
                       in if buffer_ids ai \<noteq> [] then
                            (let reader = LinkedBlockReader_new (root_block_ptr s2)
                             in case e_load_from_stream U (index s2)
                                       (load_callback sbs (linked_block_allocator s2)) reader of
                                  None \<Rightarrow> None
                                | Some (Inl e) \<Rightarrow> Some (Inl e)
                                | Some (Inr e') \<Rightarrow>
                                    Some (Inr (s2\<lparr>index := e', index_size := e_size U e'\<rparr>)))
                          else Some (Inr (s2\<lparr>index_size := e_size U (index s2)\<rparr>))))
            | None \<Rightarrow>
                (let e' = e_reserve U (index s) (min 32 estimated_cardinality)
                 in Some (Inr (s\<lparr>index := e', index_size := e_size U e'\<rparr>)))))"

subsection \<open>Search\<close>

text \<open>\<^verbatim>\<open>InitializeScan\<close> materialises the row identifiers of the search result.\<close>

definition InitializeScan ::
  "('e, 'v, 'c) index_dense_t \<Rightarrow> 'e HNSWIndex \<Rightarrow> 'v \<Rightarrow> idx_t \<Rightarrow> row_t list" where
  "InitializeScan U s query_vector limit = e_search U (index s) query_vector limit"

subsection \<open>CommitDrop\<close>


subsection \<open>Construct\<close>

text \<open>
  The insertion loop of \<^verbatim>\<open>Construct\<close> over the rows of the batch: row \<open>out_idx\<close> is the pair
  of \<^verbatim>\<open>rowid_data[out_idx]\<close> and the vector at \<^verbatim>\<open>vec_child_data + out_idx * array_size\<close>.
  The loop stops at the first row whose result is an error; \<open>Inl\<close> carries the error's
  \<^verbatim>\<open>what()\<close> and the engine at that moment.
\<close>

fun Construct_loop ::
  "('e, 'v, 'c) index_dense_t \<Rightarrow> 'e \<Rightarrow> (row_t \<times> 'v) list \<Rightarrow> nat \<Rightarrow> (string \<times> 'e) + 'e" where
  "Construct_loop U e [] thread_idx = Inr e"
| "Construct_loop U e ((rowid, v) # rows) thread_idx =
     (case e_add U e rowid v thread_idx of
        (Some what, e') \<Rightarrow> Inl (what, e')
      | (None, e') \<Rightarrow> Construct_loop U e' rows thread_idx)"

text \<open>
  The part of \<^verbatim>\<open>Construct\<close> before the insertion loop, for a batch of \<open>count\<close> rows: it
  marks the index dirty, adds \<open>count\<close> to \<^verbatim>\<open>index_size\<close> (\<^verbatim>\<open>fetch_add\<close> returns the old
  value), and reserves when the first check asks for it and the second check, on the
  value loaded again, agrees.
\<close>

definition Construct_resize ::
  "('e, 'v, 'c) index_dense_t \<Rightarrow> 'e HNSWIndex \<Rightarrow> idx_t \<Rightarrow> 'e HNSWIndex" where
  "Construct_resize U s count =
     (let s1 = s\<lparr>is_dirty := True\<rparr>;
          old_size = index_size s1;
          s2 = s1\<lparr>index_size := old_size + count\<rparr>;
          needs_resize = (old_size + count > e_capacity U (index s2))
      in if needs_resize then
           (let sz = index_size s2
            in if sz > e_capacity U (index s2)
               then s2\<lparr>index := e_reserve U (index s2) (NextPowerOfTwo sz)\<rparr>
               else s2)
         else s2)"

definition Construct ::
  "('e, 'v, 'c) index_dense_t \<Rightarrow> 'e HNSWIndex \<Rightarrow> (row_t \<times> 'v) list \<Rightarrow> nat \<Rightarrow> 'e outcome" where
  "Construct U s rows thread_idx =
     (let count = length rows;
          s3 = Construct_resize U s count
      in case Construct_loop U (index s3) rows thread_idx of
           Inl (what, e') \<Rightarrow>
             Inl (InternalException (''Failed to add to the HNSW index: '' @ what),
                  s3\<lparr>index := e'\<rparr>)
         | Inr e' \<Rightarrow> Inr (s3\<lparr>index := e'\<rparr>))"

text \<open>
  The lock that \<^verbatim>\<open>Construct\<close> holds at each step, in the order of the steps: the
  comparison of the element count with \<^verbatim>\<open>index.capacity()\<close> and its result, the call
  \<^verbatim>\<open>index.reserve\<close> and its argument, and the calls \<^verbatim>\<open>index.add\<close> and their row
  identifiers. The first comparison runs in the block of \<^verbatim>\<open>rwlock.GetSharedLock()\<close>, the
  second comparison and the reservation in the block of \<^verbatim>\<open>rwlock.GetExclusiveLock()\<close>,
  which is entered when the first comparison asked for it, and the insertion loop in a second
  block of \<^verbatim>\<open>rwlock.GetSharedLock()\<close>, up to and with the first call that fails.
\<close>

datatype lock_mode = SharedLock | ExclusiveLock

datatype lock_step = CheckCapacity bool | Reserve idx_t | Add row_t

fun Construct_loop_locks ::
  "('e, 'v, 'c) index_dense_t \<Rightarrow> 'e \<Rightarrow> (row_t \<times> 'v) list \<Rightarrow> nat
     \<Rightarrow> (lock_mode \<times> lock_step) list" where
  "Construct_loop_locks U e [] thread_idx = []"
| "Construct_loop_locks U e ((rowid, v) # rows) thread_idx =
     (SharedLock, Add rowid)
     # (case e_add U e rowid v thread_idx of
          (Some what, e') \<Rightarrow> []
        | (None, e') \<Rightarrow> Construct_loop_locks U e' rows thread_idx)"

definition Construct_locks ::
  "('e, 'v, 'c) index_dense_t \<Rightarrow> 'e HNSWIndex \<Rightarrow> (row_t \<times> 'v) list \<Rightarrow> nat
     \<Rightarrow> (lock_mode \<times> lock_step) list" where
  "Construct_locks U s rows thread_idx =
     (let count = length rows;
          s1 = s\<lparr>is_dirty := True\<rparr>;
          old_size = index_size s1;
          s2 = s1\<lparr>index_size := old_size + count\<rparr>;
          needs_resize = (old_size + count > e_capacity U (index s2));
          s3 = Construct_resize U s count
      in (SharedLock, CheckCapacity needs_resize)
         # (if needs_resize then
              (let sz = index_size s2
               in (ExclusiveLock, CheckCapacity (sz > e_capacity U (index s2)))
                  # (if sz > e_capacity U (index s2)
                     then [(ExclusiveLock, Reserve (NextPowerOfTwo sz))]
                     else []))
            else [])
         @ Construct_loop_locks U (index s3) rows thread_idx)"

subsection \<open>Compact\<close>

definition Compact :: "('e, 'v, 'c) index_dense_t \<Rightarrow> 'e HNSWIndex \<Rightarrow> 'e outcome" where
  "Compact U s =
     (let s1 = s\<lparr>is_dirty := True\<rparr>
      in case e_compact U (index s1) of
           (Some what, e') \<Rightarrow>
             Inl (InternalException (''Failed to compact the HNSW index: '' @ what),
                  s1\<lparr>index := e'\<rparr>)
         | (None, e') \<Rightarrow> Inr (s1\<lparr>index := e', index_size := e_size U e'\<rparr>))"

subsection \<open>Delete\<close>

text \<open>The loop of \<^verbatim>\<open>Delete\<close> over \<^verbatim>\<open>row_id_data[0 .. input.size())\<close>: the result of
  \<^verbatim>\<open>index.remove\<close> is not looked at.\<close>

fun Delete_loop :: "('e, 'v, 'c) index_dense_t \<Rightarrow> 'e \<Rightarrow> row_t list \<Rightarrow> 'e" where
  "Delete_loop U e [] = e"
| "Delete_loop U e (row_id # row_ids) =
     (let (result, e') = e_remove U e row_id in Delete_loop U e' row_ids)"

definition Delete :: "('e, 'v, 'c) index_dense_t \<Rightarrow> 'e HNSWIndex \<Rightarrow> row_t list \<Rightarrow> 'e outcome" where
  "Delete U s row_id_data =
     (let s1 = s\<lparr>is_dirty := True\<rparr>;
          e' = Delete_loop U (index s1) row_id_data
      in Inr (s1\<lparr>index := e', index_size := e_size U e'\<rparr>))"

subsection \<open>Insert and Append\<close>

text \<open>Both call \<^verbatim>\<open>Construct\<close> with \<^verbatim>\<open>index_dense_t::any_thread()\<close>, a constant of the engine
  that is passed in as \<open>any_thread\<close>, and return an empty \<^verbatim>\<open>ErrorData\<close>.\<close>

definition Insert ::
  "('e, 'v, 'c) index_dense_t \<Rightarrow> nat \<Rightarrow> 'e HNSWIndex \<Rightarrow> (row_t \<times> 'v) list \<Rightarrow> 'e outcome" where
  "Insert U any_thread s rows = Construct U s rows any_thread"

definition Append ::
  "('e, 'v, 'c) index_dense_t \<Rightarrow> nat \<Rightarrow> 'e HNSWIndex \<Rightarrow> (row_t \<times> 'v) list \<Rightarrow> 'e outcome" where
  "Append U any_thread s rows = Construct U s rows any_thread"

subsection \<open>PersistToDisk and GetStorageInfo\<close>

text \<open>A sequence of calls \<^verbatim>\<open>WriteData(buffer, length)\<close> on one writer, one for each buffer
  of the list, in order. \<^verbatim>\<open>index.save_to_stream\<close> makes these calls through its output
  callback, one for each buffer of the engine's serialization.\<close>

fun WriteData_seq ::
  "nat \<Rightarrow> FixedSizeAllocator \<Rightarrow> LinkedBlockWriter \<Rightarrow> byte list list
     \<Rightarrow> (error + FixedSizeAllocator \<times> LinkedBlockWriter) option" where
  "WriteData_seq sbs a w [] = Some (Inr (a, w))"
| "WriteData_seq sbs a w (buffer # buffers) =
     (case WriteData sbs a w buffer of
        None \<Rightarrow> None
      | Some (Inl e) \<Rightarrow> Some (Inl e)
      | Some (Inr (a', w')) \<Rightarrow> WriteData_seq sbs a' w' buffers)"

definition PersistToDisk ::
  "('e, 'v, 'c) index_dense_t \<Rightarrow> nat \<Rightarrow> 'e HNSWIndex \<Rightarrow> (error + 'e HNSWIndex) option" where
  "PersistToDisk U sbs s =
     (if \<not> is_dirty s then Some (Inr s)
      else
        (let s1 = (if root_block_ptr s = 0
                   then (let (p, a') = New sbs (linked_block_allocator s)
                         in s\<lparr>root_block_ptr := p, linked_block_allocator := a'\<rparr>)
                   else s);
             writer = LinkedBlockWriter_new (root_block_ptr s1)
         in case Reset_writer sbs (linked_block_allocator s1) writer of
              Inl e \<Rightarrow> Some (Inl e)
            | Inr (a2, writer') \<Rightarrow>
                (case WriteData_seq sbs a2 writer' (e_save_to_stream U (index s1)) of
                   None \<Rightarrow> None
                 | Some (Inl e) \<Rightarrow> Some (Inl e)
                 | Some (Inr (a3, writer'')) \<Rightarrow>
                     Some (Inr (s1\<lparr>linked_block_allocator := a3, is_dirty := False\<rparr>)))))"

text \<open>Both branches on \<open>get_buffers\<close> hand the allocator's buffers to the host (to the partial
  block manager, or to the write-ahead log) and leave the fields of the model as they are.\<close>

definition GetStorageInfo ::
  "('e, 'v, 'c) index_dense_t \<Rightarrow> nat \<Rightarrow> 'e HNSWIndex \<Rightarrow> bool
     \<Rightarrow> (error + IndexStorageInfo \<times> 'e HNSWIndex) option" where
  "GetStorageInfo U sbs s get_buffers =
     (case PersistToDisk U sbs s of
        None \<Rightarrow> None
      | Some (Inl e) \<Rightarrow> Some (Inl e)
      | Some (Inr s') \<Rightarrow>
          Some (Inr (\<lparr>info_name = name s', info_root = root_block_ptr s',
                      allocator_infos = [GetInfo (linked_block_allocator s')]\<rparr>, s')))"

section \<open>What the index assumes of the engine\<close>

text \<open>
  The engine is not part of the sources, so what the claims about insertion, search and
  removal rely on is stated as a contract on the parameter \<open>U\<close>, in the words of the spec.
\<close>

text \<open>
  Modelled from the spec: insertion by the engine, which is not part of the sources
  (``inserting N elements into an index reserved for fewer never loses data --- post-insert
  count equals N, capacity \<open>\<ge>\<close> N, and all N identifiers are findable''). An insertion that
  succeeds adds one element, namely the given row identifier, and leaves the capacity alone;
  an insertion that fails loses no identifier.
\<close>

definition add_contract :: "('e, 'v, 'c) index_dense_t \<Rightarrow> bool" where
  "add_contract U \<longleftrightarrow>
     (\<forall>e k v t e'. e_add U e k v t = (None, e') \<longrightarrow>
        e_size U e' = Suc (e_size U e) \<and> e_capacity U e' = e_capacity U e
        \<and> (\<forall>j. e_contains U e' j \<longleftrightarrow> j = k \<or> e_contains U e j))
   \<and> (\<forall>e k v t what e' j. e_add U e k v t = (Some what, e') \<longrightarrow>
        e_contains U e j \<longrightarrow> e_contains U e' j)"

text \<open>
  Modelled from the spec: \<open>reserve\<close> of the engine, which is not part of the sources (``grow
  capacity to the next power of two \<open>\<ge>\<close> the new element count''). It sets the capacity asked
  for, when that is no less than the capacity, and keeps the elements.
\<close>

definition reserve_contract :: "('e, 'v, 'c) index_dense_t \<Rightarrow> bool" where
  "reserve_contract U \<longleftrightarrow>
     (\<forall>e n. e_size U (e_reserve U e n) = e_size U e
        \<and> (e_capacity U e \<le> n \<longrightarrow> e_capacity U (e_reserve U e n) = n)
        \<and> (\<forall>j. e_contains U (e_reserve U e n) j \<longleftrightarrow> e_contains U e j))"

text \<open>
  Modelled from the spec: search by the engine, which is not part of the sources (``all N
  identifiers are findable via search with limit \<open>\<ge>\<close> N''). A search whose limit is at least
  the number of elements returns every identifier that the engine holds.
\<close>

definition search_contract :: "('e, 'v, 'c) index_dense_t \<Rightarrow> bool" where
  "search_contract U \<longleftrightarrow>
     (\<forall>e q limit k. e_size U e \<le> limit \<longrightarrow> e_contains U e k
        \<longrightarrow> k \<in> set (e_search U e q limit))"

text \<open>
  Modelled from the spec: removal by the engine, which is not part of the sources (``removes
  each identifier from the graph engine; never fails even if the identifier is absent
  (defensive no-op on missing id)''). Removing an identifier that the engine does not hold
  changes nothing; after a removal the identifier is not held; a removal adds no identifier.
\<close>

definition remove_contract :: "('e, 'v, 'c) index_dense_t \<Rightarrow> bool" where
  "remove_contract U \<longleftrightarrow>
     (\<forall>e k. (\<not> e_contains U e k \<longrightarrow> snd (e_remove U e k) = e)
        \<and> \<not> e_contains U (snd (e_remove U e k)) k
        \<and> (\<forall>j. e_contains U (snd (e_remove U e k)) j \<longrightarrow> e_contains U e j))"

subsection \<open>An engine that meets the contract\<close>

text \<open>
  A small engine over vectors of integers: it keeps the row identifiers in insertion order,
  refuses the empty vector and any insertion beyond its capacity, returns the first
  \<open>limit\<close> identifiers for a search, and serializes itself as one buffer holding the number
  of identifiers followed by one buffer holding the low byte of each. It shows that the
  contract can be met and gives the theorems below concrete instances.
\<close>

record list_engine_state =
  le_keys :: "row_t list"
  le_capacity :: nat

definition list_engine_load ::
  "list_engine_state \<Rightarrow> stream_callback \<Rightarrow> LinkedBlockReader
     \<Rightarrow> (error + list_engine_state) option" where
  "list_engine_load e cb r =
     (case cb 1 r of
        None \<Rightarrow> None
      | Some (Inl err) \<Rightarrow> Some (Inl err)
      | Some (Inr (ok, header, r')) \<Rightarrow>
          if \<not> ok then Some (Inr e)
          else
            (case cb (case header of [] \<Rightarrow> 0 | n # _ \<Rightarrow> unat n) r' of
               None \<Rightarrow> None
             | Some (Inl err) \<Rightarrow> Some (Inl err)
             | Some (Inr (ok', body, r'')) \<Rightarrow>
                 if \<not> ok' then Some (Inr e)
                 else Some (Inr (e\<lparr>le_keys := map ucast body\<rparr>))))"

definition list_engine :: "(list_engine_state, int list, unit) index_dense_t" where
  "list_engine =
     \<lparr>e_make = (\<lambda>cfg. \<lparr>le_keys = [], le_capacity = 0\<rparr>),
      e_size = (\<lambda>e. length (le_keys e)),
      e_capacity = le_capacity,
      e_contains = (\<lambda>e k. k \<in> set (le_keys e)),
      e_reserve = (\<lambda>e n. e\<lparr>le_capacity := n\<rparr>),
      e_add = (\<lambda>e k v t.
                 if v = [] then (Some ''invalid vector'', e)
                 else if le_capacity e \<le> length (le_keys e) then (Some ''capacity'', e)
                 else (None, e\<lparr>le_keys := le_keys e @ [k]\<rparr>)),
      e_remove = (\<lambda>e k.
                 if k \<in> set (le_keys e) then (None, e\<lparr>le_keys := removeAll k (le_keys e)\<rparr>)
                 else (Some ''missing key'', e)),
      e_compact = (\<lambda>e. (None, e)),
      e_reset = (\<lambda>e. \<lparr>le_keys = [], le_capacity = 0\<rparr>),
      e_search = (\<lambda>e q limit. take limit (le_keys e)),
      e_save_to_stream = (\<lambda>e. [[of_nat (length (le_keys e))], map ucast (le_keys e)]),
      e_load_from_stream = list_engine_load\<rparr>"

section \<open>Concrete instances\<close>

text \<open>A host block size of 20 gives blocks with a payload of 4 bytes. The allocator holds one
  block with stale content, whose forward pointer 7 is not in use. Behind a pointer \<open>p\<close>
  that is not in use lie four bytes \<open>p\<close> and the forward pointer \<open>p + 1\<close>.\<close>

definition stale_memory :: "IndexPointer \<Rightarrow> LinkedBlock" where
  "stale_memory = (\<lambda>p. \<lparr>next_block = p + 1, data = replicate 4 (of_nat p)\<rparr>)"

definition example_allocator :: FixedSizeAllocator where
  "example_allocator =
     \<lparr>segments = [\<lparr>next_block = 7, data = [9, 9, 9, 9]\<rparr>], first_pointer = 0,
      unowned = stale_memory\<rparr>"

text \<open>
  An index over the list engine, followed through its life: newly made with an allocator
  whose pointers start at 1; after the insertion of row 5; after a checkpoint; and after the
  deletion of row 5, when it holds no element again.
\<close>

definition new_index :: "list_engine_state HNSWIndex" where
  "new_index =
     \<lparr>name = ''idx'', index = \<lparr>le_keys = [], le_capacity = 0\<rparr>, index_size = 0,
      is_dirty = False, root_block_ptr = 0,
      linked_block_allocator =
        \<lparr>segments = [], first_pointer = 1, unowned = fresh_memory 20\<rparr>\<rparr>"

definition inserted_index :: "list_engine_state HNSWIndex" where
  "inserted_index =
     \<lparr>name = ''idx'', index = \<lparr>le_keys = [5], le_capacity = 1\<rparr>, index_size = 1,
      is_dirty = True, root_block_ptr = 0,
      linked_block_allocator =
        \<lparr>segments = [], first_pointer = 1, unowned = fresh_memory 20\<rparr>\<rparr>"

definition persisted_index :: "list_engine_state HNSWIndex" where
  "persisted_index =
     \<lparr>name = ''idx'', index = \<lparr>le_keys = [5], le_capacity = 1\<rparr>, index_size = 1,
      is_dirty = False, root_block_ptr = 1,
      linked_block_allocator =
        \<lparr>segments = [\<lparr>next_block = 0, data = [1, 5, 0, 0]\<rparr>], first_pointer = 1,
         unowned = fresh_memory 20\<rparr>\<rparr>"

definition persisted_info :: IndexStorageInfo where
  "persisted_info =
     \<lparr>info_name = ''idx'', info_root = 1,
      allocator_infos =
        [\<lparr>buffer_ids = [0], info_segments = [\<lparr>next_block = 0, data = [1, 5, 0, 0]\<rparr>],
          info_first_pointer = 1, info_unowned = fresh_memory 20\<rparr>]\<rparr>"

definition emptied_index :: "list_engine_state HNSWIndex" where
  "emptied_index =
     \<lparr>name = ''idx'', index = \<lparr>le_keys = [], le_capacity = 1\<rparr>, index_size = 0,
      is_dirty = True, root_block_ptr = 1,
      linked_block_allocator =
        \<lparr>segments = [\<lparr>next_block = 0, data = [1, 5, 0, 0]\<rparr>], first_pointer = 1,
         unowned = fresh_memory 20\<rparr>\<rparr>"

definition emptied_persisted_index :: "list_engine_state HNSWIndex" where
  "emptied_persisted_index =
     \<lparr>name = ''idx'', index = \<lparr>le_keys = [], le_capacity = 1\<rparr>, index_size = 0,
      is_dirty = False, root_block_ptr = 1,
      linked_block_allocator =
        \<lparr>segments = [\<lparr>next_block = 0, data = [0, 0, 0, 0]\<rparr>], first_pointer = 1,
         unowned = fresh_memory 20\<rparr>\<rparr>"

definition emptied_info :: IndexStorageInfo where
  "emptied_info =
     \<lparr>info_name = ''idx'', info_root = 1,
      allocator_infos =
        [\<lparr>buffer_ids = [0], info_segments = [\<lparr>next_block = 0, data = [0, 0, 0, 0]\<rparr>],
          info_first_pointer = 1, info_unowned = fresh_memory 20\<rparr>]\<rparr>"

text \<open>The new index after a batch of three rows, and after a batch whose second row has
  an empty vector, which the list engine refuses.\<close>

definition batch_index :: "list_engine_state HNSWIndex" where
  "batch_index =
     \<lparr>name = ''idx'', index = \<lparr>le_keys = [5, 6, 7], le_capacity = 4\<rparr>, index_size = 3,
      is_dirty = True, root_block_ptr = 0,
      linked_block_allocator =
        \<lparr>segments = [], first_pointer = 1, unowned = fresh_memory 20\<rparr>\<rparr>"

definition failed_batch_index :: "list_engine_state HNSWIndex" where
  "failed_batch_index =
     \<lparr>name = ''idx'', index = \<lparr>le_keys = [5], le_capacity = 4\<rparr>, index_size = 3,
      is_dirty = True, root_block_ptr = 0,
      linked_block_allocator =
        \<lparr>segments = [], first_pointer = 1, unowned = fresh_memory 20\<rparr>\<rparr>"

text \<open>
  The index after the insertion of row 5, after a second batch that holds row 6 alone: it
  holds two elements.
\<close>

definition second_batch_index :: "list_engine_state HNSWIndex" where
  "second_batch_index =
     \<lparr>name = ''idx'', index = \<lparr>le_keys = [5, 6], le_capacity = 2\<rparr>, index_size = 2,
      is_dirty = True, root_block_ptr = 0,
      linked_block_allocator =
        \<lparr>segments = [], first_pointer = 1, unowned = fresh_memory 20\<rparr>\<rparr>"


definition overgrown_index :: "list_engine_state HNSWIndex" where
  "overgrown_index =
     \<lparr>name = ''idx'',
      index = \<lparr>le_keys = [5, 10, 11, 12, 13, 14, 15], le_capacity = 16\<rparr>, index_size = 9,
      is_dirty = True, root_block_ptr = 0,
      linked_block_allocator =
        \<lparr>segments = [], first_pointer = 1, unowned = fresh_memory 20\<rparr>\<rparr>"

section \<open>Properties of the allocator model\<close>

lemma Get_Put_same: "Get a p = Some b \<Longrightarrow> Get (Put a p b') p = Some b'"
  by (auto simp: Get_def Put_def split: if_splits)

lemma Get_Put_other: "Get a p = Some b \<Longrightarrow> q \<noteq> p \<Longrightarrow> Get (Put a p b') q = Get a q"
  by (auto simp: Get_def Put_def nth_list_update split: if_splits)

lemma Get_Put_None: "Get (Put a p b) q = None \<longleftrightarrow> Get a q = None"
  by (simp add: Get_def Put_def)

lemma Get_New_fresh: "Get a (fst (New sbs a)) = None"
  by (simp add: Get_def New_def)

lemma Get_New_same:
  "Get (snd (New sbs a)) (fst (New sbs a))
     = Some \<lparr>next_block = 0, data = replicate (BLOCK_DATA_SIZE sbs) 0\<rparr>"
  by (simp add: Get_def New_def)

lemma Get_New_other: "Get a q = Some b \<Longrightarrow> Get (snd (New sbs a)) q = Some b"
  by (auto simp: Get_def New_def nth_append split: if_splits)

lemma first_pointer_Put: "first_pointer (Put a p b) = first_pointer a"
  by (simp add: Put_def)

lemma length_segments_Put: "length (segments (Put a p b)) = length (segments a)"
  by (simp add: Put_def)

lemma first_pointer_New: "first_pointer (snd (New sbs a)) = first_pointer a"
  by (simp add: New_def)

lemma length_segments_New: "length (segments (snd (New sbs a))) = Suc (length (segments a))"
  by (simp add: New_def)

section \<open>The writer keeps the chain well formed\<close>

lemma static_assert_pos: "LinkedBlock_static_assert sbs \<Longrightarrow> 0 < BLOCK_DATA_SIZE sbs"
  by (simp add: LinkedBlock_static_assert_def BLOCK_DATA_SIZE_def)

lemma stream_at_current:
  "stream_at sbs a p xs cur pos
     \<Longrightarrow> \<exists>b. Get a cur = Some b \<and> length (data b) = BLOCK_DATA_SIZE sbs
           \<and> pos < BLOCK_DATA_SIZE sbs \<and> next_block b = 0
           \<and> drop pos (data b) = replicate (BLOCK_DATA_SIZE sbs - pos) 0"
  by (induction rule: stream_at.induct) auto

lemma stream_at_extend:
  assumes "stream_at sbs a p xs cur pos"
    and frame: "\<And>q b. q \<noteq> cur \<Longrightarrow> Get a q = Some b \<Longrightarrow> Get a' q = Some b"
    and tail: "\<And>b. Get a cur = Some b \<Longrightarrow> stream_at sbs a' cur (take pos (data b) @ c) cur' pos'"
    and fresh: "cur' = cur \<or> Get a cur' = None"
  shows "stream_at sbs a' p (xs @ c) cur' pos'"
  using assms
proof (induction rule: stream_at.induct)
  case (last_block p b xs)
  then show ?case by metis
next
  case (full_block p b xs cur ys pos)
  have 1: "Get a' p = Some b" using full_block by blast
  have 2: "p \<noteq> cur'" using full_block by auto
  have 3: "stream_at sbs a' (next_block b) (ys @ c) cur' pos'"
    using full_block by blast
  show ?case using stream_at.full_block[OF 1 full_block(2) full_block(3) 2 3] by simp
qed

lemma stream_at_write_within:
  assumes b: "Get a cur = Some b" "length (data b) = BLOCK_DATA_SIZE sbs" "next_block b = 0"
      "drop pos (data b) = replicate (BLOCK_DATA_SIZE sbs - pos) 0"
    and n: "pos + length c < BLOCK_DATA_SIZE sbs"
  shows "stream_at sbs
           (Put a cur (b\<lparr>data := take pos (data b) @ c @ drop (pos + length c) (data b)\<rparr>))
           cur (take pos (data b) @ c) cur (pos + length c)"
proof -
  let ?d = "take pos (data b) @ c @ drop (pos + length c) (data b)"
  let ?b = "b\<lparr>data := ?d\<rparr>"
  let ?xs = "take pos (data b) @ c"
  have len: "length ?xs = pos + length c" using b n by simp
  have 1: "Get (Put a cur ?b) cur = Some ?b" using b(1) by (rule Get_Put_same)
  have 2: "length (data ?b) = BLOCK_DATA_SIZE sbs" using b n by simp
  have 3: "length ?xs < BLOCK_DATA_SIZE sbs" using len n by simp
  have 4: "take (length ?xs) (data ?b) = ?xs" unfolding len using b n by simp
  have 5: "next_block ?b = 0" using b by simp
  have "drop (pos + length c) (data b) = drop (length c) (drop pos (data b))"
    by (simp add: add.commute)
  also have "\<dots> = replicate (BLOCK_DATA_SIZE sbs - (pos + length c)) 0"
    using b(4) by simp
  finally have 6: "drop (length ?xs) (data ?b)
      = replicate (BLOCK_DATA_SIZE sbs - length ?xs) 0"
    unfolding len using b n by simp
  show ?thesis
    using stream_at.last_block[OF 1 2 3 4 5 6] unfolding len .
qed

lemma stream_at_write_boundary:
  fixes sbs a cur b pos c
  defines "zero \<equiv> \<lparr>next_block = 0, data = replicate (BLOCK_DATA_SIZE sbs) 0\<rparr>"
  defines "d' \<equiv> take pos (data b) @ c @ drop (pos + length c) (data b)"
  defines "a1 \<equiv> Put a cur (b\<lparr>data := d'\<rparr>)"
  defines "p \<equiv> fst (New sbs a1)"
  defines "a3 \<equiv> Put (snd (New sbs a1)) cur (b\<lparr>data := d', next_block := p\<rparr>)"
  defines "a4 \<equiv> Put a3 p zero"
  assumes b: "Get a cur = Some b" "length (data b) = BLOCK_DATA_SIZE sbs"
    and n: "pos + length c = BLOCK_DATA_SIZE sbs" "pos < BLOCK_DATA_SIZE sbs"
  shows "Get a3 p = Some zero"
    and "stream_at sbs a4 cur (take pos (data b) @ c) p 0"
    and "Get a p = None"
    and "\<And>q bq. q \<noteq> cur \<Longrightarrow> Get a q = Some bq \<Longrightarrow> Get a4 q = Some bq"
    and "first_pointer a4 = first_pointer a"
    and "length (segments a4) = Suc (length (segments a))"
proof -
  let ?a2 = "snd (New sbs a1)"
  let ?b3 = "b\<lparr>data := d', next_block := p\<rparr>"
  have g1: "Get a1 cur = Some (b\<lparr>data := d'\<rparr>)"
    unfolding a1_def using b(1) by (rule Get_Put_same)
  have f1: "Get a1 p = None" unfolding p_def by (rule Get_New_fresh)
  then show fa: "Get a p = None" unfolding a1_def by (simp add: Get_Put_None)
  have pc: "p \<noteq> cur" using g1 f1 by auto
  have g2: "Get ?a2 cur = Some (b\<lparr>data := d'\<rparr>)" using g1 by (rule Get_New_other)
  have g2p: "Get ?a2 p = Some zero" unfolding p_def zero_def by (rule Get_New_same)
  have g3: "Get a3 cur = Some ?b3" unfolding a3_def using g2 by (rule Get_Put_same)
  show g3p: "Get a3 p = Some zero"
    unfolding a3_def using Get_Put_other[OF g2 pc] g2p by simp
  have g4p: "Get a4 p = Some zero" unfolding a4_def using g3p by (rule Get_Put_same)
  have g4: "Get a4 cur = Some ?b3"
    unfolding a4_def using Get_Put_other[OF g3p pc[symmetric]] g3 by simp
  have d': "d' = take pos (data b) @ c" unfolding d'_def using b n by simp
  have len: "length (take pos (data b) @ c) = BLOCK_DATA_SIZE sbs" using b n by simp
  have last: "stream_at sbs a4 p [] p (length ([]::byte list))"
    by (rule stream_at.last_block[OF g4p]) (use n in \<open>simp_all add: zero_def\<close>)
  have "stream_at sbs a4 cur ((take pos (data b) @ c) @ []) p 0"
    by (rule stream_at.full_block[OF g4 _ len pc[symmetric]]) (use last d' in simp_all)
  then show "stream_at sbs a4 cur (take pos (data b) @ c) p 0" by simp
  show "first_pointer a4 = first_pointer a"
    unfolding a4_def a3_def a1_def by (simp add: first_pointer_Put first_pointer_New)
  show "length (segments a4) = Suc (length (segments a))"
    unfolding a4_def a3_def a1_def by (simp add: length_segments_Put length_segments_New)
  show "Get a4 q = Some bq" if q: "q \<noteq> cur" "Get a q = Some bq" for q bq
  proof -
    have "q \<noteq> p" using q(2) fa by auto
    have "Get a1 q = Some bq" unfolding a1_def using Get_Put_other[OF b(1) q(1)] q(2) by simp
    then have "Get ?a2 q = Some bq" by (rule Get_New_other)
    then have "Get a3 q = Some bq" unfolding a3_def using Get_Put_other[OF g2 q(1)] by simp
    then show ?thesis unfolding a4_def using Get_Put_other[OF g3p \<open>q \<noteq> p\<close>] by simp
  qed
qed

lemma WriteData_loop_done:
  "\<not> bytes_written < len \<Longrightarrow> WriteData_loop sbs a w buffer len bytes_written = Some (Inr (a, w))"
  by (subst WriteData_loop.simps) simp

lemma WriteData_loop_within:
  assumes "Get a (wr_current_pointer w) = Some b" "bytes_written < len"
    and "n = min (len - bytes_written) (BLOCK_DATA_SIZE sbs - wr_position_in_block w)"
    and "wr_position_in_block w + n \<noteq> BLOCK_DATA_SIZE sbs"
  shows "WriteData_loop sbs a w buffer len bytes_written
    = WriteData_loop sbs
        (Put a (wr_current_pointer w)
           (b\<lparr>data := take (wr_position_in_block w) (data b) @ take n (drop bytes_written buffer)
                        @ drop (wr_position_in_block w + n) (data b)\<rparr>))
        (w\<lparr>wr_position_in_block := wr_position_in_block w + n\<rparr>) buffer len (bytes_written + n)"
  using assms by (subst WriteData_loop.simps) (simp add: Let_def)

lemma WriteData_loop_boundary:
  fixes sbs a w b buffer bytes_written n
  defines "zero \<equiv> \<lparr>next_block = 0, data = replicate (BLOCK_DATA_SIZE sbs) 0\<rparr>"
  defines "d' \<equiv> take (wr_position_in_block w) (data b) @ take n (drop bytes_written buffer)
                  @ drop (wr_position_in_block w + n) (data b)"
  defines "a1 \<equiv> Put a (wr_current_pointer w) (b\<lparr>data := d'\<rparr>)"
  defines "p \<equiv> fst (New sbs a1)"
  defines "a3 \<equiv> Put (snd (New sbs a1)) (wr_current_pointer w) (b\<lparr>data := d', next_block := p\<rparr>)"
  assumes "Get a (wr_current_pointer w) = Some b" "bytes_written < len"
    and "n = min (len - bytes_written) (BLOCK_DATA_SIZE sbs - wr_position_in_block w)"
    and "wr_position_in_block w + n = BLOCK_DATA_SIZE sbs"
    and "Get a3 p = Some zero"
  shows "WriteData_loop sbs a w buffer len bytes_written
    = WriteData_loop sbs (Put a3 p zero)
        (w\<lparr>wr_position_in_block := 0, wr_current_pointer := p\<rparr>) buffer len (bytes_written + n)"
  using assms(6-)
  by (subst WriteData_loop.simps)
     (simp add: Let_def ClearCurrentBlock_def split_beta zero_def d'_def a1_def p_def a3_def)

lemma WriteData_loop_stream:
  assumes "stream_at sbs a rp xs (wr_current_pointer w) (wr_position_in_block w)"
    and "len \<le> length buffer" and "bytes_written \<le> len"
  shows "\<exists>a' w'. WriteData_loop sbs a w buffer len bytes_written = Some (Inr (a', w'))
           \<and> stream_at sbs a' rp (xs @ take (len - bytes_written) (drop bytes_written buffer))
                (wr_current_pointer w') (wr_position_in_block w')
           \<and> wr_root_pointer w' = wr_root_pointer w
           \<and> first_pointer a' = first_pointer a
           \<and> length (segments a') = length (segments a)
                + (wr_position_in_block w + (len - bytes_written)) div BLOCK_DATA_SIZE sbs"
  using assms
proof (induction "len - bytes_written" arbitrary: a w xs bytes_written rule: less_induct)
  case less
  let ?B = "BLOCK_DATA_SIZE sbs"
  let ?cur = "wr_current_pointer w"
  let ?pos = "wr_position_in_block w"
  from stream_at_current[OF less.prems(1)]
  obtain b where b: "Get a ?cur = Some b" "length (data b) = ?B" "?pos < ?B" "next_block b = 0"
      "drop ?pos (data b) = replicate (?B - ?pos) 0"
    by blast
  show ?case
  proof (cases "bytes_written < len")
    case False
    then have "len - bytes_written = 0" by simp
    then show ?thesis
      using less.prems(1) b(3) by (simp add: WriteData_loop_done[OF False])
  next
    case True
    define n where "n = min (len - bytes_written) (?B - ?pos)"
    define c where "c = take n (drop bytes_written buffer)"
    have n_pos: "0 < n" using True b(3) by (simp add: n_def)
    have n_le: "n \<le> len - bytes_written" "?pos + n \<le> ?B" using b(3) by (simp_all add: n_def)
    have len_c: "length c = n" using less.prems(2) n_le True by (simp add: c_def)
    have rest: "c @ take (len - (bytes_written + n)) (drop (bytes_written + n) buffer)
                  = take (len - bytes_written) (drop bytes_written buffer)"
    proof -
      have "take (n + (len - (bytes_written + n))) (drop bytes_written buffer)
              = c @ take (len - (bytes_written + n)) (drop n (drop bytes_written buffer))"
        unfolding c_def by (rule take_add)
      moreover have "n + (len - (bytes_written + n)) = len - bytes_written" using n_le by simp
      ultimately show ?thesis by (simp add: add.commute)
    qed
    have smaller: "len - (bytes_written + n) < len - bytes_written" using n_pos True by simp
    have bw: "bytes_written + n \<le> len" using n_le True by simp
    show ?thesis
    proof (cases "?pos + n = ?B")
      case False
      let ?a1 = "Put a ?cur (b\<lparr>data := take ?pos (data b) @ c @ drop (?pos + n) (data b)\<rparr>)"
      let ?w1 = "w\<lparr>wr_position_in_block := ?pos + n\<rparr>"
      have all: "n = len - bytes_written" using False n_le by (simp add: n_def)
      have step: "WriteData_loop sbs a w buffer len bytes_written
                    = WriteData_loop sbs ?a1 ?w1 buffer len (bytes_written + n)"
        using WriteData_loop_within[OF b(1) True n_def False, where buffer = buffer, folded c_def] .
      have pn: "?pos + length c < ?B" using False n_le len_c by simp
      have tail: "stream_at sbs ?a1 ?cur (take ?pos (data b) @ c) ?cur (?pos + n)"
        using stream_at_write_within[OF b(1) b(2) b(4) b(5) pn] unfolding len_c .
      have ext: "stream_at sbs ?a1 rp (xs @ c) (wr_current_pointer ?w1) (wr_position_in_block ?w1)"
      proof -
        have "stream_at sbs ?a1 rp (xs @ c) ?cur (?pos + n)"
        proof (rule stream_at_extend[OF less.prems(1)])
          show "Get ?a1 q = Some bq" if "q \<noteq> ?cur" "Get a q = Some bq" for q bq
            using Get_Put_other[OF b(1) that(1)] that(2) by simp
          show "stream_at sbs ?a1 ?cur (take ?pos (data b') @ c) ?cur (?pos + n)"
            if "Get a ?cur = Some b'" for b'
            using that b(1) tail by simp
          show "?cur = ?cur \<or> Get a ?cur = None" by simp
        qed
        then show ?thesis by simp
      qed
      from less.hyps[OF smaller ext less.prems(2) bw]
      obtain a' w' where r: "WriteData_loop sbs ?a1 ?w1 buffer len (bytes_written + n) = Some (Inr (a', w'))"
        "stream_at sbs a' rp ((xs @ c) @ take (len - (bytes_written + n)) (drop (bytes_written + n) buffer))
           (wr_current_pointer w') (wr_position_in_block w')"
        "wr_root_pointer w' = wr_root_pointer ?w1"
        "first_pointer a' = first_pointer ?a1"
        "length (segments a') = length (segments ?a1)
           + (wr_position_in_block ?w1 + (len - (bytes_written + n))) div ?B"
        by blast
      have cnt: "(?pos + (len - bytes_written)) div ?B = 0"
        using False n_le all by simp
      have cnt': "(wr_position_in_block ?w1 + (len - (bytes_written + n))) div ?B = 0"
        using False n_le all by simp
      show ?thesis
        using r rest cnt cnt'
        by (simp add: step first_pointer_Put length_segments_Put)
    next
      case True2: True
      define zero where "zero = \<lparr>next_block = 0, data = replicate ?B 0\<rparr>"
      define d' where "d' = take ?pos (data b) @ c @ drop (?pos + n) (data b)"
      define a1 where "a1 = Put a ?cur (b\<lparr>data := d'\<rparr>)"
      define p where "p = fst (New sbs a1)"
      define a3 where "a3 = Put (snd (New sbs a1)) ?cur (b\<lparr>data := d', next_block := p\<rparr>)"
      define a4 where "a4 = Put a3 p zero"
      let ?w2 = "w\<lparr>wr_position_in_block := 0, wr_current_pointer := p\<rparr>"
      have pc: "?pos + length c = ?B" using True2 len_c by simp
      note R = stream_at_write_boundary[OF b(1) b(2) pc b(3), unfolded len_c]
      have B: "Get a3 p = Some zero"
        "stream_at sbs a4 ?cur (take ?pos (data b) @ c) p 0"
        "Get a p = None"
        "\<And>q bq. q \<noteq> ?cur \<Longrightarrow> Get a q = Some bq \<Longrightarrow> Get a4 q = Some bq"
        "first_pointer a4 = first_pointer a"
        "length (segments a4) = Suc (length (segments a))"
        unfolding zero_def d'_def a1_def p_def a3_def a4_def
        by (rule R(1), rule R(2), rule R(3), rule R(4), assumption, assumption, rule R(5), rule R(6))
      have step: "WriteData_loop sbs a w buffer len bytes_written
                    = WriteData_loop sbs a4 ?w2 buffer len (bytes_written + n)"
        using WriteData_loop_boundary[OF b(1) True n_def True2, where buffer = buffer, folded c_def] B(1)
        unfolding zero_def d'_def a1_def p_def a3_def a4_def by simp
      have ext: "stream_at sbs a4 rp (xs @ c) (wr_current_pointer ?w2) (wr_position_in_block ?w2)"
      proof -
        have "stream_at sbs a4 rp (xs @ c) p 0"
        proof (rule stream_at_extend[OF less.prems(1)])
          show "Get a4 q = Some bq" if "q \<noteq> ?cur" "Get a q = Some bq" for q bq
            using B(4)[OF that] .
          show "stream_at sbs a4 ?cur (take ?pos (data b') @ c) p 0"
            if "Get a ?cur = Some b'" for b'
            using that b(1) B(2) by simp
          show "p = ?cur \<or> Get a p = None" using B(3) by simp
        qed
        then show ?thesis by simp
      qed
      from less.hyps[OF smaller ext less.prems(2) bw]
      obtain a' w' where r: "WriteData_loop sbs a4 ?w2 buffer len (bytes_written + n) = Some (Inr (a', w'))"
        "stream_at sbs a' rp ((xs @ c) @ take (len - (bytes_written + n)) (drop (bytes_written + n) buffer))
           (wr_current_pointer w') (wr_position_in_block w')"
        "wr_root_pointer w' = wr_root_pointer ?w2"
        "first_pointer a' = first_pointer a4"
        "length (segments a') = length (segments a4)
           + (wr_position_in_block ?w2 + (len - (bytes_written + n))) div ?B"
        by blast
      have "?pos + (len - bytes_written) = ?B + (len - (bytes_written + n))"
        using True2 n_le by simp
      then have cnt: "(?pos + (len - bytes_written)) div ?B = Suc ((len - (bytes_written + n)) div ?B)"
        using b(3) by simp
      show ?thesis
        using r rest cnt B(5) B(6)
        by (simp add: step)
    qed
  qed
qed

lemma stream_at_follow:
  "stream_at sbs a p xs cur pos
     \<Longrightarrow> follow a p (length xs div BLOCK_DATA_SIZE sbs) = Some cur
         \<and> pos = length xs mod BLOCK_DATA_SIZE sbs"
proof (induction rule: stream_at.induct)
  case (last_block p b xs)
  then show ?case by simp
next
  case (full_block p b xs cur ys pos)
  have B: "0 < BLOCK_DATA_SIZE sbs"
    using stream_at_current[OF full_block(5)] by auto
  have "length (xs @ ys) div BLOCK_DATA_SIZE sbs = Suc (length ys div BLOCK_DATA_SIZE sbs)"
    using full_block(3) B by simp
  moreover have "length (xs @ ys) mod BLOCK_DATA_SIZE sbs = length ys mod BLOCK_DATA_SIZE sbs"
    using full_block(3) by simp
  ultimately show ?case using full_block by simp
qed

lemma WriteData_stream:
  assumes "stream_at sbs a rp xs (wr_current_pointer w) (wr_position_in_block w)"
  shows "\<exists>a' w'. WriteData sbs a w buffer = Some (Inr (a', w'))
           \<and> stream_at sbs a' rp (xs @ buffer) (wr_current_pointer w') (wr_position_in_block w')
           \<and> wr_root_pointer w' = wr_root_pointer w
           \<and> first_pointer a' = first_pointer a
           \<and> length (segments a') + length xs div BLOCK_DATA_SIZE sbs
               = length (segments a) + length (xs @ buffer) div BLOCK_DATA_SIZE sbs"
proof -
  let ?B = "BLOCK_DATA_SIZE sbs"
  from WriteData_loop_stream[OF assms, of "length buffer" buffer 0]
  obtain a' w' where r: "WriteData_loop sbs a w buffer (length buffer) 0 = Some (Inr (a', w'))"
    "stream_at sbs a' rp (xs @ buffer) (wr_current_pointer w') (wr_position_in_block w')"
    "wr_root_pointer w' = wr_root_pointer w" "first_pointer a' = first_pointer a"
    "length (segments a') = length (segments a)
       + (wr_position_in_block w + length buffer) div ?B"
    by auto
  have pos: "wr_position_in_block w = length xs mod ?B"
    using stream_at_follow[OF assms] by simp
  have "(length xs mod ?B + length buffer) div ?B + length xs div ?B
          = (length xs + length buffer) div ?B"
  proof (cases "?B = 0")
    case True
    then show ?thesis by simp
  next
    case False
    have "length xs + length buffer = length xs div ?B * ?B + (length xs mod ?B + length buffer)"
      by simp
    then have "(length xs + length buffer) div ?B
                 = (length xs div ?B * ?B + (length xs mod ?B + length buffer)) div ?B"
      by simp
    also have "\<dots> = length xs div ?B + (length xs mod ?B + length buffer) div ?B"
      by (rule div_mult_self3[OF False])
    finally show ?thesis by simp
  qed
  then show ?thesis using r pos by (auto simp: WriteData_def)
qed

lemma WriteData_seq_stream:
  assumes "stream_at sbs a rp xs (wr_current_pointer w) (wr_position_in_block w)"
  shows "\<exists>a' w'. WriteData_seq sbs a w buffers = Some (Inr (a', w'))
           \<and> stream_at sbs a' rp (xs @ concat buffers)
                (wr_current_pointer w') (wr_position_in_block w')
           \<and> wr_root_pointer w' = wr_root_pointer w
           \<and> first_pointer a' = first_pointer a
           \<and> length (segments a') + length xs div BLOCK_DATA_SIZE sbs
               = length (segments a) + length (xs @ concat buffers) div BLOCK_DATA_SIZE sbs"
  using assms
proof (induction buffers arbitrary: a w xs)
  case Nil
  then show ?case by simp
next
  case (Cons buffer buffers)
  from WriteData_stream[OF Cons.prems, of buffer]
  obtain a1 w1 where 1: "WriteData sbs a w buffer = Some (Inr (a1, w1))"
    "stream_at sbs a1 rp (xs @ buffer) (wr_current_pointer w1) (wr_position_in_block w1)"
    "wr_root_pointer w1 = wr_root_pointer w" "first_pointer a1 = first_pointer a"
    "length (segments a1) + length xs div BLOCK_DATA_SIZE sbs
       = length (segments a) + length (xs @ buffer) div BLOCK_DATA_SIZE sbs"
    by blast
  from Cons.IH[OF 1(2)]
  obtain a2 w2 where 2: "WriteData_seq sbs a1 w1 buffers = Some (Inr (a2, w2))"
    "stream_at sbs a2 rp ((xs @ buffer) @ concat buffers)
       (wr_current_pointer w2) (wr_position_in_block w2)"
    "wr_root_pointer w2 = wr_root_pointer w1" "first_pointer a2 = first_pointer a1"
    "length (segments a2) + length (xs @ buffer) div BLOCK_DATA_SIZE sbs
       = length (segments a1) + length ((xs @ buffer) @ concat buffers) div BLOCK_DATA_SIZE sbs"
    by blast
  show ?case using 1 2 by simp
qed

lemma Reset_writer_stream:
  assumes "Get a rp = Some b" "0 < BLOCK_DATA_SIZE sbs"
  shows "\<exists>a' w'. Reset_writer sbs a (LinkedBlockWriter_new rp) = Inr (a', w')
           \<and> stream_at sbs a' rp [] (wr_current_pointer w') (wr_position_in_block w')
           \<and> wr_root_pointer w' = rp \<and> wr_current_pointer w' = rp
           \<and> first_pointer a' = first_pointer a
           \<and> length (segments a') = length (segments a)"
proof -
  let ?z = "b\<lparr>next_block := 0, data := replicate (BLOCK_DATA_SIZE sbs) 0\<rparr>"
  have g: "Get (Put a rp ?z) rp = Some ?z" using assms(1) by (rule Get_Put_same)
  have "stream_at sbs (Put a rp ?z) rp [] rp (length ([]::byte list))"
    by (rule stream_at.last_block[OF g]) (use assms(2) in simp_all)
  then show ?thesis
    using assms(1)
    by (simp add: Reset_writer_def LinkedBlockWriter_new_def ClearCurrentBlock_def
        first_pointer_Put length_segments_Put)
qed

section \<open>The reader follows the chain\<close>

lemma ReadData_loop_done:
  "\<not> bytes_read < len \<Longrightarrow> ReadData_loop sbs a r buffer len bytes_read = Some (Inr (bytes_read, buffer, r))"
  by (subst ReadData_loop.simps) simp

lemma Get_unchecked_Some: "Get a p = Some b \<Longrightarrow> Get_unchecked a p = b"
  by (simp add: Get_unchecked_def)

lemma ReadData_loop_stream:
  assumes "stream_at sbs a p xs cur pos"
    and "rd_current_pointer r = p" "rd_position_in_block r = 0"
  shows "ReadData_loop sbs a r buffer (bytes_read + length xs) bytes_read
           = Some (Inr (bytes_read + length xs, buffer @ xs,
                        r\<lparr>rd_position_in_block := pos, rd_current_pointer := cur\<rparr>))"
  using assms
proof (induction arbitrary: r buffer bytes_read rule: stream_at.induct)
  case (last_block p b xs)
  have gu: "Get_unchecked a p = b" using last_block(1) by (rule Get_unchecked_Some)
  show ?case
  proof (cases "xs = []")
    case True
    then show ?thesis using last_block by (simp add: ReadData_loop_done)
  next
    case False
    have "ReadData_loop sbs a r buffer (bytes_read + length xs) bytes_read
            = ReadData_loop sbs a (r\<lparr>rd_position_in_block := length xs\<rparr>) (buffer @ xs)
                (bytes_read + length xs) (bytes_read + length xs)"
      using last_block False gu
      by (subst ReadData_loop.simps) (simp add: Let_def min_def)
    then show ?thesis using last_block by (simp add: ReadData_loop_done)
  qed
next
  case (full_block p b xs cur ys pos)
  let ?r = "r\<lparr>rd_position_in_block := 0, rd_current_pointer := next_block b\<rparr>"
  have gu: "Get_unchecked a p = b" using full_block(1) by (rule Get_unchecked_Some)
  have B: "0 < BLOCK_DATA_SIZE sbs"
    using stream_at_current[OF full_block(5)] by auto
  have "ReadData_loop sbs a r buffer (bytes_read + length (xs @ ys)) bytes_read
          = ReadData_loop sbs a ?r (buffer @ xs)
              ((bytes_read + length xs) + length ys) (bytes_read + length xs)"
    using full_block(1-4) full_block(7-8) B gu
    by (subst ReadData_loop.simps) (simp add: Let_def min_def add.assoc)
  also have "\<dots> = Some (Inr ((bytes_read + length xs) + length ys, (buffer @ xs) @ ys,
                         ?r\<lparr>rd_position_in_block := pos, rd_current_pointer := cur\<rparr>))"
    by (rule full_block.IH) simp_all
  finally show ?case by (simp add: add.assoc)
qed

lemma ReadData_stream:
  assumes "stream_at sbs a rp xs cur pos"
  shows "ReadData sbs a (LinkedBlockReader_new rp) (length xs)
           = Some (Inr (length xs, xs,
               \<lparr>rd_root_pointer = rp, rd_current_pointer = cur, rd_position_in_block = pos\<rparr>))"
  using ReadData_loop_stream[OF assms, of "LinkedBlockReader_new rp" "[]" 0]
  by (simp add: ReadData_def LinkedBlockReader_new_def)

subsection \<open>The reader on any chain\<close>

lemma chain_end_chunk:
  assumes "pos < BLOCK_DATA_SIZE sbs" and "pos + k \<le> BLOCK_DATA_SIZE sbs"
  shows "chain_end sbs a p pos (k + n)
           = (if pos + k = BLOCK_DATA_SIZE sbs
              then chain_end sbs a (next_block (Get_unchecked a p)) 0 n
              else chain_end sbs a p (pos + k) n)"
  using assms
proof (induction k arbitrary: pos)
  case 0
  then show ?case by simp
next
  case (Suc k)
  show ?case
  proof (cases "Suc pos = BLOCK_DATA_SIZE sbs")
    case True
    then have "k = 0" using Suc.prems(2) by simp
    then show ?thesis using True by simp
  next
    case False
    then have lt: "Suc pos < BLOCK_DATA_SIZE sbs" using Suc.prems by simp
    have le: "Suc pos + k \<le> BLOCK_DATA_SIZE sbs" using Suc.prems(2) by simp
    show ?thesis using Suc.IH[OF lt le] False by simp
  qed
qed

lemma chain_bytes_chunk:
  assumes "pos < BLOCK_DATA_SIZE sbs" and "pos + k \<le> BLOCK_DATA_SIZE sbs"
    and "length (data (Get_unchecked a p)) = BLOCK_DATA_SIZE sbs"
  shows "chain_bytes sbs a p pos (k + n)
           = take k (drop pos (data (Get_unchecked a p)))
             @ (if pos + k = BLOCK_DATA_SIZE sbs
                then chain_bytes sbs a (next_block (Get_unchecked a p)) 0 n
                else chain_bytes sbs a p (pos + k) n)"
  using assms(1,2)
proof (induction k arbitrary: pos)
  case 0
  then show ?case by simp
next
  case (Suc k)
  let ?d = "data (Get_unchecked a p)"
  have hd: "take (Suc k) (drop pos ?d) = ?d ! pos # take k (drop (Suc pos) ?d)"
    using Suc.prems(1) assms(3) by (simp add: Cons_nth_drop_Suc[symmetric])
  show ?case
  proof (cases "Suc pos = BLOCK_DATA_SIZE sbs")
    case True
    then have "k = 0" using Suc.prems(2) by simp
    then show ?thesis using True hd by simp
  next
    case False
    then have lt: "Suc pos < BLOCK_DATA_SIZE sbs" using Suc.prems by simp
    have le: "Suc pos + k \<le> BLOCK_DATA_SIZE sbs" using Suc.prems(2) by simp
    show ?thesis using Suc.IH[OF lt le] False hd by simp
  qed
qed

lemma ReadData_loop_chain:
  assumes "0 < BLOCK_DATA_SIZE sbs" and "rd_position_in_block r < BLOCK_DATA_SIZE sbs"
    and "bytes_read \<le> len"
  shows "\<exists>buf. ReadData_loop sbs a r buffer len bytes_read
             = Some (Inr (len, buf,
                 r\<lparr>rd_position_in_block :=
                      snd (chain_end sbs a (rd_current_pointer r) (rd_position_in_block r)
                             (len - bytes_read)),
                    rd_current_pointer :=
                      fst (chain_end sbs a (rd_current_pointer r) (rd_position_in_block r)
                             (len - bytes_read))\<rparr>))
           \<and> snd (chain_end sbs a (rd_current_pointer r) (rd_position_in_block r)
                    (len - bytes_read)) < BLOCK_DATA_SIZE sbs
           \<and> (full_payload sbs a
                \<longrightarrow> buf = buffer @ chain_bytes sbs a (rd_current_pointer r)
                                    (rd_position_in_block r) (len - bytes_read))"
  using assms
proof (induction "len - bytes_read" arbitrary: r buffer bytes_read rule: less_induct)
  case less
  let ?B = "BLOCK_DATA_SIZE sbs"
  let ?pos = "rd_position_in_block r"
  let ?cur = "rd_current_pointer r"
  show ?case
  proof (cases "bytes_read < len")
    case False
    then have "len - bytes_read = 0" "bytes_read = len" using less.prems(3) by simp_all
    then show ?thesis using less.prems(2) by (simp add: ReadData_loop_done)
  next
    case True
    define block where "block = Get_unchecked a ?cur"
    define n where "n = min (len - bytes_read) (?B - ?pos)"
    define m where "m = len - (bytes_read + n)"
    define r2 where "r2 = (if ?pos + n = ?B
        then r\<lparr>rd_position_in_block := 0, rd_current_pointer := next_block block\<rparr>
        else r\<lparr>rd_position_in_block := ?pos + n\<rparr>)"
    define buffer2 where "buffer2 = buffer @ take n (drop ?pos (data block))"
    have n_pos: "0 < n" using True less.prems(2) by (simp add: n_def)
    have n_le: "n \<le> len - bytes_read" "?pos + n \<le> ?B" using less.prems(2) by (simp_all add: n_def)
    have split: "len - bytes_read = n + m" using n_le(1) True by (simp add: m_def)
    have step: "ReadData_loop sbs a r buffer len bytes_read
                  = ReadData_loop sbs a r2 buffer2 len (bytes_read + n)"
      using True
      by (subst ReadData_loop.simps) (simp add: Let_def n_def r2_def buffer2_def block_def)
    have smaller: "len - (bytes_read + n) < len - bytes_read" using n_pos True by simp
    have pos2: "rd_position_in_block r2 < ?B"
      using n_le less.prems(1) by (simp add: r2_def)
    have bw: "bytes_read + n \<le> len" using n_le True by simp
    have ce: "chain_end sbs a ?cur ?pos (len - bytes_read)
                = chain_end sbs a (rd_current_pointer r2) (rd_position_in_block r2) m"
      unfolding split
      using chain_end_chunk[OF less.prems(2) n_le(2), of a ?cur m]
      by (simp add: r2_def block_def)
    have cb: "buffer @ chain_bytes sbs a ?cur ?pos (len - bytes_read)
                = buffer2 @ chain_bytes sbs a (rd_current_pointer r2) (rd_position_in_block r2) m"
      if "full_payload sbs a"
    proof -
      have "length (data (Get_unchecked a ?cur)) = ?B"
        using that by (simp add: full_payload_def)
      from chain_bytes_chunk[OF less.prems(2) n_le(2) this, of m]
      show ?thesis unfolding split by (simp add: r2_def block_def buffer2_def)
    qed
    have upd: "r2\<lparr>rd_position_in_block := x, rd_current_pointer := y\<rparr>
                 = r\<lparr>rd_position_in_block := x, rd_current_pointer := y\<rparr>" for x y
      by (simp add: r2_def)
    from less.hyps[OF smaller less.prems(1) pos2 bw, of buffer2]
    show ?thesis unfolding step ce m_def[symmetric] upd using cb by auto
  qed
qed

lemma full_payload_example: "full_payload 20 example_allocator"
  by (simp add: full_payload_def Get_unchecked_def Get_def example_allocator_def
      stale_memory_def BLOCK_DATA_SIZE_def BLOCK_SIZE_def sizeof_validity_t_def
      sizeof_IndexPointer_def)

section \<open>The helper of the host and the list engine\<close>

lemma NextPowerOfTwo_small: "v \<le> 1 \<Longrightarrow> NextPowerOfTwo v = 1"
proof -
  assume "v \<le> 1"
  then have "nat (int v - 1) = 0" by simp
  then have "bitlen (int v - 1) = 0" by (simp add: bitlen_def floorlog_def)
  then show ?thesis by (simp add: NextPowerOfTwo_def)
qed

lemma NextPowerOfTwo_ge: "v \<le> NextPowerOfTwo v"
proof (cases "v \<le> 1")
  case True
  then show ?thesis by (simp add: NextPowerOfTwo_small)
next
  case False
  then have "0 < int v - 1" by simp
  from bitlen_bounds[OF this] have "int v - 1 < 2 ^ nat (bitlen (int v - 1))" by simp
  then have "int v \<le> 2 ^ nat (bitlen (int v - 1))" by linarith
  then show ?thesis unfolding NextPowerOfTwo_def by simp
qed

lemma NextPowerOfTwo_least: "v \<le> 2 ^ j \<Longrightarrow> NextPowerOfTwo v \<le> 2 ^ j"
proof (cases "v \<le> 1")
  case True
  then show ?thesis by (simp add: NextPowerOfTwo_small)
next
  case False
  assume le: "v \<le> 2 ^ j"
  from False have pos: "0 < int v - 1" by simp
  from bitlen_bounds[OF pos] have "2 ^ nat (bitlen (int v - 1) - 1) \<le> int v - 1" by simp
  then have "(2::int) ^ nat (bitlen (int v - 1) - 1) < int v" by linarith
  also have "int v \<le> 2 ^ j" using le by simp
  finally have "nat (bitlen (int v - 1) - 1) < j" by simp
  then have "nat (bitlen (int v - 1)) \<le> j" by simp
  then show ?thesis unfolding NextPowerOfTwo_def by simp
qed

lemma NextPowerOfTwo_1: "NextPowerOfTwo (Suc 0) = Suc 0"
  by (simp add: NextPowerOfTwo_def)

lemma NextPowerOfTwo_3: "NextPowerOfTwo 3 = 4"
  by code_simp

lemma NextPowerOfTwo_Suc_3: "NextPowerOfTwo (Suc (Suc (Suc 0))) = 4"
  unfolding numeral_3_eq_3[symmetric] by (rule NextPowerOfTwo_3)

lemma NextPowerOfTwo_Suc_2: "NextPowerOfTwo (Suc (Suc 0)) = 2"
proof -
  have "NextPowerOfTwo 2 = 2" by code_simp
  then show ?thesis by (simp add: numeral_2_eq_2)
qed


lemma NextPowerOfTwo_7: "NextPowerOfTwo 7 = 8"
  by code_simp

lemma NextPowerOfTwo_9: "NextPowerOfTwo 9 = 16"
  by code_simp

lemma list_engine_add_contract: "add_contract list_engine"
  by (auto simp: add_contract_def list_engine_def split: if_splits)

lemma list_engine_reserve_contract: "reserve_contract list_engine"
  by (simp add: reserve_contract_def list_engine_def)

lemma list_engine_search_contract: "search_contract list_engine"
  by (simp add: search_contract_def list_engine_def)

lemma list_engine_remove_contract: "remove_contract list_engine"
  by (auto simp: remove_contract_def list_engine_def)

section \<open>The life of the example index\<close>

lemma static_assert_20: "LinkedBlock_static_assert 20"
  by (simp add: LinkedBlock_static_assert_def BLOCK_SIZE_def sizeof_validity_t_def
      sizeof_IndexPointer_def)

lemma BLOCK_DATA_SIZE_20: "BLOCK_DATA_SIZE 20 = 4"
  by (simp add: BLOCK_DATA_SIZE_def BLOCK_SIZE_def sizeof_validity_t_def
      sizeof_IndexPointer_def)

lemma replicate_2: "replicate 2 x = [x, x]"
  by (simp add: numeral_2_eq_2)

lemma replicate_3: "replicate 3 x = [x, x, x]"
  by (simp add: numeral_3_eq_3)

lemma replicate_4: "replicate 4 x = [x, x, x, x]"
  by (simp add: eval_nat_numeral)

lemmas eval_write =
  WriteData_def WriteData_loop.simps ClearCurrentBlock_def Reset_writer_def
  LinkedBlockWriter_new_def Get_def Put_def New_def BLOCK_DATA_SIZE_20 Let_def
  replicate_2 replicate_3 replicate_4


lemma inserted_index_made: "Construct list_engine new_index [(5, [1])] 0 = Inr inserted_index"
  by (simp add: Construct_def Construct_resize_def list_engine_def new_index_def
      inserted_index_def NextPowerOfTwo_1 Let_def)

lemma persisted_index_made:
  "GetStorageInfo list_engine 20 inserted_index False = Some (Inr (persisted_info, persisted_index))"
  by (simp add: GetStorageInfo_def PersistToDisk_def list_engine_def inserted_index_def
      persisted_index_def persisted_info_def GetInfo_def eval_write)

lemma emptied_index_made: "Delete list_engine persisted_index [5] = Inr emptied_index"
  by (simp add: Delete_def list_engine_def persisted_index_def emptied_index_def)

lemma batch_index_made:
  "Construct list_engine new_index [(5, [1]), (6, [2]), (7, [3])] 0 = Inr batch_index"
  by (simp add: Construct_def Construct_resize_def list_engine_def new_index_def
      batch_index_def NextPowerOfTwo_Suc_3 Let_def)

lemma failed_batch_index_made:
  "Construct list_engine new_index [(5, [1]), (6, []), (7, [3])] 0
     = Inl (InternalException ''Failed to add to the HNSW index: invalid vector'',
            failed_batch_index)"
  by (simp add: Construct_def Construct_resize_def list_engine_def new_index_def
      failed_batch_index_def NextPowerOfTwo_Suc_3 Let_def)

lemma second_batch_index_made:
  "Construct list_engine inserted_index [(6, [1])] 0 = Inr second_batch_index"
  by (simp add: Construct_def Construct_resize_def list_engine_def inserted_index_def
      second_batch_index_def NextPowerOfTwo_Suc_2 Let_def)


lemma overgrown_index_made:
  "Construct list_engine failed_batch_index
     [(10, [1]), (11, [1]), (12, [1]), (13, [1]), (14, [1]), (15, [1])] 0
     = Inr overgrown_index"
  by (simp add: Construct_def Construct_resize_def list_engine_def failed_batch_index_def
      overgrown_index_def NextPowerOfTwo_9 Let_def)

section \<open>Block chain fidelity\<close>

text \<open>
  Claim C1. For every byte stream \<open>buffer\<close>, of any length \<open>L\<close> (0, 1, one less than the
  block payload size, the payload size, any multiple of it plus a remainder): clearing the
  chain with \<^verbatim>\<open>Reset\<close> on a writer at a valid root pointer, writing the stream with
  \<^verbatim>\<open>WriteData\<close>, and then reading \<open>L\<close> bytes with \<^verbatim>\<open>ReadData\<close> on a reader made at the
  same root pointer all return, and the read returns \<open>L\<close> and exactly the bytes written.
\<close>

theorem block_chain_round_trip:
  assumes "LinkedBlock_static_assert sbs" and "Get a root_pointer \<noteq> None"
  shows "\<exists>a1 w1 a2 w2 r.
           Reset_writer sbs a (LinkedBlockWriter_new root_pointer) = Inr (a1, w1)
         \<and> WriteData sbs a1 w1 buffer = Some (Inr (a2, w2))
         \<and> ReadData sbs a2 (LinkedBlockReader_new root_pointer) (length buffer)
             = Some (Inr (length buffer, buffer, r))"
proof -
  from assms(2) obtain b where b: "Get a root_pointer = Some b" by auto
  from Reset_writer_stream[OF b static_assert_pos[OF assms(1)]]
  obtain a1 w1 where 1: "Reset_writer sbs a (LinkedBlockWriter_new root_pointer) = Inr (a1, w1)"
    "stream_at sbs a1 root_pointer [] (wr_current_pointer w1) (wr_position_in_block w1)"
    by blast
  from WriteData_stream[OF 1(2), of buffer]
  obtain a2 w2 where 2: "WriteData sbs a1 w1 buffer = Some (Inr (a2, w2))"
    "stream_at sbs a2 root_pointer buffer (wr_current_pointer w2) (wr_position_in_block w2)"
    by auto
  show ?thesis using 1(1) 2(1) ReadData_stream[OF 2(2)] by blast
qed

theorem block_chain_round_trip_witness:
  "LinkedBlock_static_assert 20 \<and> Get example_allocator 0 \<noteq> None
   \<and> (\<exists>a1 w1 a2 w2 r.
           Reset_writer 20 example_allocator (LinkedBlockWriter_new 0) = Inr (a1, w1)
         \<and> WriteData 20 a1 w1 [1, 2, 3, 4, 5] = Some (Inr (a2, w2))
         \<and> ReadData 20 a2 (LinkedBlockReader_new 0) 5 = Some (Inr (5, [1, 2, 3, 4, 5], r)))"
proof -
  have h1: "LinkedBlock_static_assert 20"
    by (simp add: LinkedBlock_static_assert_def BLOCK_SIZE_def sizeof_validity_t_def
        sizeof_IndexPointer_def)
  have h2: "Get example_allocator 0 \<noteq> None" by (simp add: example_allocator_def Get_def)
  have len: "length [1, 2, 3, 4, 5 :: byte] = 5" by simp
  show ?thesis
    by (intro conjI h1 h2 block_chain_round_trip[OF h1 h2, of "[1, 2, 3, 4, 5]", unfolded len])
qed

section \<open>The block allocated at an exact boundary\<close>

text \<open>
  Claim C9. When the bytes written after \<^verbatim>\<open>Reset\<close>, by any sequence of \<^verbatim>\<open>WriteData\<close>
  calls, add up to exactly \<open>k\<close> times the block payload size, the writer has allocated \<open>k\<close>
  blocks beyond the root: the chain is \<open>k + 1\<close> blocks long, the writer stands at offset 0 of
  the last one, which is linked from its predecessor, and that block is zero-cleared and has
  a clear forward pointer, so it holds no payload, though no further byte is written.
\<close>

theorem exact_boundary_over_allocation:
  assumes "LinkedBlock_static_assert sbs" and "Get a root_pointer \<noteq> None"
    and "length (concat buffers) = k * BLOCK_DATA_SIZE sbs"
  shows "\<exists>a1 w1 a2 w2.
           Reset_writer sbs a (LinkedBlockWriter_new root_pointer) = Inr (a1, w1)
         \<and> WriteData_seq sbs a1 w1 buffers = Some (Inr (a2, w2))
         \<and> length (segments a2) = length (segments a) + k
         \<and> follow a2 root_pointer k = Some (wr_current_pointer w2)
         \<and> wr_position_in_block w2 = 0
         \<and> Get a2 (wr_current_pointer w2)
             = Some \<lparr>next_block = 0, data = replicate (BLOCK_DATA_SIZE sbs) 0\<rparr>"
proof -
  let ?B = "BLOCK_DATA_SIZE sbs"
  have B: "0 < ?B" using assms(1) by (rule static_assert_pos)
  from assms(2) obtain b where b: "Get a root_pointer = Some b" by auto
  from Reset_writer_stream[OF b B]
  obtain a1 w1 where 1: "Reset_writer sbs a (LinkedBlockWriter_new root_pointer) = Inr (a1, w1)"
    "stream_at sbs a1 root_pointer [] (wr_current_pointer w1) (wr_position_in_block w1)"
    "length (segments a1) = length (segments a)"
    by blast
  from WriteData_seq_stream[OF 1(2), of buffers]
  obtain a2 w2 where 2: "WriteData_seq sbs a1 w1 buffers = Some (Inr (a2, w2))"
    "stream_at sbs a2 root_pointer (concat buffers) (wr_current_pointer w2) (wr_position_in_block w2)"
    "length (segments a2) + length ([]::byte list) div ?B
       = length (segments a1) + length ([] @ concat buffers) div ?B"
    by auto
  have cnt: "length (segments a2) = length (segments a) + k"
    using 2(3) 1(3) assms(3) B by simp
  from stream_at_follow[OF 2(2)] assms(3) B
  have f: "follow a2 root_pointer k = Some (wr_current_pointer w2)"
    and p: "wr_position_in_block w2 = 0"
    by simp_all
  from stream_at_current[OF 2(2)] p
  obtain c where c: "Get a2 (wr_current_pointer w2) = Some c" "next_block c = 0"
    "data c = replicate ?B 0"
    by auto
  have "c = \<lparr>next_block = 0, data = replicate ?B 0\<rparr>" using c(2,3) by simp
  then show ?thesis using 1(1) 2(1) cnt f p c(1) by blast
qed

theorem exact_boundary_over_allocation_witness:
  "LinkedBlock_static_assert 20 \<and> Get example_allocator 0 \<noteq> None
   \<and> length (concat [[1, 2, 3 :: byte], [4, 5, 6, 7, 8]]) = 2 * BLOCK_DATA_SIZE 20
   \<and> (\<exists>a1 w1 a2 w2.
           Reset_writer 20 example_allocator (LinkedBlockWriter_new 0) = Inr (a1, w1)
         \<and> WriteData_seq 20 a1 w1 [[1, 2, 3], [4, 5, 6, 7, 8]] = Some (Inr (a2, w2))
         \<and> length (segments a2) = length (segments example_allocator) + 2
         \<and> follow a2 0 2 = Some (wr_current_pointer w2)
         \<and> wr_position_in_block w2 = 0
         \<and> Get a2 (wr_current_pointer w2)
             = Some \<lparr>next_block = 0, data = replicate (BLOCK_DATA_SIZE 20) 0\<rparr>)"
proof -
  have h2: "Get example_allocator 0 \<noteq> None" by (simp add: example_allocator_def Get_def)
  have h3: "length (concat [[1, 2, 3 :: byte], [4, 5, 6, 7, 8]]) = 2 * BLOCK_DATA_SIZE 20"
    by (simp add: BLOCK_DATA_SIZE_20)
  show ?thesis
    by (intro conjI static_assert_20 h2 h3
        exact_boundary_over_allocation[OF static_assert_20 h2 h3])
qed

section \<open>Short reads\<close>

lemma length_chain_bytes: "length (chain_bytes sbs a p pos n) = n"
  by (induction n arbitrary: p pos) simp_all

lemma chain_bytes_example: "chain_bytes 20 example_allocator 0 0 6 = [9, 9, 9, 9, 7, 7]"
  by code_simp

lemma chain_end_example: "chain_end 20 example_allocator 0 0 6 = (7, 2)"
  by code_simp

text \<open>
  Claim C10. \<^verbatim>\<open>ReadData\<close> never returns a short count. For every allocator, whatever the
  extent of its chains, every reader whose position lies inside a block (as the constructor,
  \<^verbatim>\<open>Reset\<close> and \<^verbatim>\<open>ReadData\<close> leave it) and every requested size \<open>sz\<close>, the call returns,
  and returns exactly \<open>sz\<close>: the reader has followed the forward pointers, in use or not, to
  the block and offset that lie \<open>sz\<close> bytes further, and when every block has its full payload
  it has copied exactly the \<open>sz\<close> bytes found on the way. So the comparison in the callback
  of \<^verbatim>\<open>load_from_stream\<close> is true on every call: the callback returns \<^verbatim>\<open>true\<close>, never
  \<^verbatim>\<open>false\<close>.
\<close>

theorem ReadData_never_short:
  assumes "LinkedBlock_static_assert sbs"
    and "rd_position_in_block r < BLOCK_DATA_SIZE sbs"
  shows "\<exists>buffer r'.
           ReadData sbs a r sz = Some (Inr (sz, buffer, r'))
         \<and> load_callback sbs a sz r = Some (Inr (True, buffer, r'))
         \<and> r' = r\<lparr>rd_position_in_block :=
                     snd (chain_end sbs a (rd_current_pointer r) (rd_position_in_block r) sz),
                   rd_current_pointer :=
                     fst (chain_end sbs a (rd_current_pointer r) (rd_position_in_block r) sz)\<rparr>
         \<and> rd_position_in_block r' < BLOCK_DATA_SIZE sbs
         \<and> (full_payload sbs a
              \<longrightarrow> buffer = chain_bytes sbs a (rd_current_pointer r) (rd_position_in_block r) sz
                \<and> length buffer = sz)"
proof -
  from ReadData_loop_chain[OF static_assert_pos[OF assms(1)] assms(2), of 0 sz a "[]"]
  obtain buf where 1: "ReadData_loop sbs a r [] sz 0
             = Some (Inr (sz, buf,
                 r\<lparr>rd_position_in_block :=
                      snd (chain_end sbs a (rd_current_pointer r) (rd_position_in_block r) sz),
                    rd_current_pointer :=
                      fst (chain_end sbs a (rd_current_pointer r) (rd_position_in_block r) sz)\<rparr>))"
    and 2: "snd (chain_end sbs a (rd_current_pointer r) (rd_position_in_block r) sz)
              < BLOCK_DATA_SIZE sbs"
    and 3: "full_payload sbs a
              \<Longrightarrow> buf = chain_bytes sbs a (rd_current_pointer r) (rd_position_in_block r) sz"
    by auto
  show ?thesis
    using 1 2 3 by (simp add: load_callback_def ReadData_def length_chain_bytes)
qed

theorem ReadData_never_short_witness:
  "LinkedBlock_static_assert 20
   \<and> rd_position_in_block (LinkedBlockReader_new 0) < BLOCK_DATA_SIZE 20
   \<and> full_payload 20 example_allocator
   \<and> Get example_allocator 7 = None
   \<and> ReadData 20 example_allocator (LinkedBlockReader_new 0) 6
       = Some (Inr (6, [9, 9, 9, 9, 7, 7],
            \<lparr>rd_root_pointer = 0, rd_current_pointer = 7, rd_position_in_block = 2\<rparr>))
   \<and> load_callback 20 example_allocator 6 (LinkedBlockReader_new 0)
       = Some (Inr (True, [9, 9, 9, 9, 7, 7],
            \<lparr>rd_root_pointer = 0, rd_current_pointer = 7, rd_position_in_block = 2\<rparr>))"
proof -
  have h2: "rd_position_in_block (LinkedBlockReader_new 0) < BLOCK_DATA_SIZE 20"
    by (simp add: LinkedBlockReader_new_def BLOCK_DATA_SIZE_20)
  have h3: "Get example_allocator 7 = None" by (simp add: example_allocator_def Get_def)
  have cur: "rd_current_pointer (LinkedBlockReader_new 0) = 0"
    and pos: "rd_position_in_block (LinkedBlockReader_new 0) = 0"
    by (simp_all add: LinkedBlockReader_new_def)
  from ReadData_never_short[OF static_assert_20 h2, of example_allocator 6]
  obtain buffer r' where
    1: "ReadData 20 example_allocator (LinkedBlockReader_new 0) 6 = Some (Inr (6, buffer, r'))"
    and 2: "load_callback 20 example_allocator 6 (LinkedBlockReader_new 0)
              = Some (Inr (True, buffer, r'))"
    and 3: "r' = (LinkedBlockReader_new 0)\<lparr>rd_position_in_block := 2, rd_current_pointer := 7\<rparr>"
    and 4: "full_payload 20 example_allocator \<longrightarrow> buffer = [9, 9, 9, 9, 7, 7]"
    unfolding cur pos chain_bytes_example chain_end_example by auto
  have b: "buffer = [9, 9, 9, 9, 7, 7]" using 4 full_payload_example by simp
  have r: "r' = \<lparr>rd_root_pointer = 0, rd_current_pointer = 7, rd_position_in_block = 2\<rparr>"
    using 3 by (simp add: LinkedBlockReader_new_def)
  show ?thesis
    using static_assert_20 h2 full_payload_example h3 1 2 unfolding b r by simp
qed

section \<open>PersistToDisk\<close>

lemma PersistToDisk_clean: "\<not> is_dirty s \<Longrightarrow> PersistToDisk U sbs s = Some (Inr s)"
  by (simp add: PersistToDisk_def)

lemma PersistToDisk_dirty:
  assumes "LinkedBlock_static_assert sbs"
    and "root_block_ptr s \<noteq> 0 \<longrightarrow> Get (linked_block_allocator s) (root_block_ptr s) \<noteq> None"
    and "is_dirty s"
  shows "\<exists>a3 r. PersistToDisk U sbs s
            = Some (Inr (s\<lparr>root_block_ptr :=
                              (if root_block_ptr s = 0
                               then fst (New sbs (linked_block_allocator s))
                               else root_block_ptr s),
                            linked_block_allocator := a3, is_dirty := False\<rparr>))
          \<and> ReadData sbs a3
               (LinkedBlockReader_new (if root_block_ptr s = 0
                                       then fst (New sbs (linked_block_allocator s))
                                       else root_block_ptr s))
               (length (concat (e_save_to_stream U (index s))))
             = Some (Inr (length (concat (e_save_to_stream U (index s))),
                          concat (e_save_to_stream U (index s)), r))"
proof -
  let ?B = "BLOCK_DATA_SIZE sbs"
  define rp where "rp = (if root_block_ptr s = 0
      then fst (New sbs (linked_block_allocator s)) else root_block_ptr s)"
  define a1 where "a1 = (if root_block_ptr s = 0
      then snd (New sbs (linked_block_allocator s)) else linked_block_allocator s)"
  have B: "0 < ?B" using assms(1) by (rule static_assert_pos)
  have "Get a1 rp \<noteq> None"
    using assms(2) by (simp add: rp_def a1_def Get_New_same)
  then obtain b where b: "Get a1 rp = Some b" by auto
  from Reset_writer_stream[OF b B]
  obtain a2 w2 where 1: "Reset_writer sbs a1 (LinkedBlockWriter_new rp) = Inr (a2, w2)"
    "stream_at sbs a2 rp [] (wr_current_pointer w2) (wr_position_in_block w2)"
    by blast
  from WriteData_seq_stream[OF 1(2), of "e_save_to_stream U (index s)"]
  obtain a3 w3 where 2: "WriteData_seq sbs a2 w2 (e_save_to_stream U (index s)) = Some (Inr (a3, w3))"
    "stream_at sbs a3 rp (concat (e_save_to_stream U (index s)))
       (wr_current_pointer w3) (wr_position_in_block w3)"
    by auto
  have "PersistToDisk U sbs s
          = Some (Inr (s\<lparr>root_block_ptr := rp, linked_block_allocator := a3, is_dirty := False\<rparr>))"
    using assms(3) 1(1) 2(1)
    by (cases "root_block_ptr s = 0")
       (simp_all add: PersistToDisk_def rp_def a1_def split_beta Let_def)
  then show ?thesis
    using ReadData_stream[OF 2(2)] unfolding rp_def by blast
qed

text \<open>
  Claim C2. \<^verbatim>\<open>PersistToDisk\<close> on an index that is not dirty returns the index unchanged, and
  nothing is written. On a dirty index, whose root pointer is null or valid, it returns; the
  root pointer is the old one, or a newly allocated block when the old one was null; reading
  the chain from the root gives back the whole serialization of the engine; the engine, the
  element count and the name are as before; and the index is no longer dirty, so that a second
  call right after the first changes nothing.
\<close>

theorem PersistToDisk_state_machine:
  assumes "LinkedBlock_static_assert sbs"
    and "root_block_ptr s \<noteq> 0 \<longrightarrow> Get (linked_block_allocator s) (root_block_ptr s) \<noteq> None"
  shows "if \<not> is_dirty s then PersistToDisk U sbs s = Some (Inr s)
         else (\<exists>s' r. PersistToDisk U sbs s = Some (Inr s')
                 \<and> \<not> is_dirty s'
                 \<and> root_block_ptr s'
                     = (if root_block_ptr s = 0 then fst (New sbs (linked_block_allocator s))
                        else root_block_ptr s)
                 \<and> (root_block_ptr s = 0
                      \<longrightarrow> Get (linked_block_allocator s) (root_block_ptr s') = None)
                 \<and> index s' = index s \<and> index_size s' = index_size s \<and> name s' = name s
                 \<and> ReadData sbs (linked_block_allocator s')
                      (LinkedBlockReader_new (root_block_ptr s'))
                      (length (concat (e_save_to_stream U (index s))))
                    = Some (Inr (length (concat (e_save_to_stream U (index s))),
                                 concat (e_save_to_stream U (index s)), r))
                 \<and> PersistToDisk U sbs s' = Some (Inr s'))"
proof (cases "is_dirty s")
  case False
  then show ?thesis by (simp add: PersistToDisk_clean)
next
  case True
  from PersistToDisk_dirty[OF assms True, of U]
  obtain a3 r where p: "PersistToDisk U sbs s
            = Some (Inr (s\<lparr>root_block_ptr :=
                              (if root_block_ptr s = 0
                               then fst (New sbs (linked_block_allocator s))
                               else root_block_ptr s),
                            linked_block_allocator := a3, is_dirty := False\<rparr>))"
    "ReadData sbs a3
               (LinkedBlockReader_new (if root_block_ptr s = 0
                                       then fst (New sbs (linked_block_allocator s))
                                       else root_block_ptr s))
               (length (concat (e_save_to_stream U (index s))))
             = Some (Inr (length (concat (e_save_to_stream U (index s))),
                          concat (e_save_to_stream U (index s)), r))"
    by blast
  show ?thesis
    using True p by (simp add: PersistToDisk_clean Get_New_fresh)
qed

theorem PersistToDisk_state_machine_witness:
  "LinkedBlock_static_assert 20
   \<and> root_block_ptr inserted_index = 0
   \<and> is_dirty inserted_index
   \<and> PersistToDisk list_engine 20 inserted_index = Some (Inr persisted_index)
   \<and> is_dirty persisted_index = False
   \<and> PersistToDisk list_engine 20 persisted_index = Some (Inr persisted_index)
   \<and> Get (linked_block_allocator emptied_index) (root_block_ptr emptied_index)
       = Some \<lparr>next_block = 0, data = [1, 5, 0, 0]\<rparr>
   \<and> is_dirty emptied_index
   \<and> PersistToDisk list_engine 20 emptied_index = Some (Inr emptied_persisted_index)
   \<and> PersistToDisk list_engine 20 emptied_persisted_index = Some (Inr emptied_persisted_index)"
proof -
  have r0: "root_block_ptr inserted_index = 0" by (simp add: inserted_index_def)
  have h2: "root_block_ptr inserted_index \<noteq> 0
        \<longrightarrow> Get (linked_block_allocator inserted_index) (root_block_ptr inserted_index) \<noteq> None"
    using r0 by simp
  have d: "is_dirty inserted_index" by (simp add: inserted_index_def)
  have p: "PersistToDisk list_engine 20 inserted_index = Some (Inr persisted_index)"
    by (simp add: PersistToDisk_def list_engine_def inserted_index_def
      persisted_index_def eval_write)
  have c: "is_dirty persisted_index = False" by (simp add: persisted_index_def)
  from PersistToDisk_state_machine[OF static_assert_20 h2, of list_engine] d p
  have again: "PersistToDisk list_engine 20 persisted_index = Some (Inr persisted_index)"
    by auto
  have g: "Get (linked_block_allocator emptied_index) (root_block_ptr emptied_index)
       = Some \<lparr>next_block = 0, data = [1, 5, 0, 0]\<rparr>"
    by (simp add: emptied_index_def Get_def)
  have h2': "root_block_ptr emptied_index \<noteq> 0
        \<longrightarrow> Get (linked_block_allocator emptied_index) (root_block_ptr emptied_index) \<noteq> None"
    using g by simp
  have d': "is_dirty emptied_index" by (simp add: emptied_index_def)
  have p': "PersistToDisk list_engine 20 emptied_index = Some (Inr emptied_persisted_index)"
    by (simp add: PersistToDisk_def list_engine_def emptied_index_def
      emptied_persisted_index_def eval_write)
  from PersistToDisk_state_machine[OF static_assert_20 h2', of list_engine] d' p'
  have again': "PersistToDisk list_engine 20 emptied_persisted_index
                  = Some (Inr emptied_persisted_index)"
    by auto
  show ?thesis
    by (intro conjI static_assert_20 r0 d p c again g d' p' again')
qed

section \<open>The empty index\<close>

text \<open>
  Claim C3, as stated, fails: an index that holds no element is persisted like any other
  when it is dirty. \<open>emptied_index\<close> holds no element (its only row was deleted after a
  checkpoint); the descriptor that \<^verbatim>\<open>GetStorageInfo\<close> returns for it has root pointer 1, the
  block allocated at the earlier checkpoint, and its allocator metadata lists a buffer.
\<close>

theorem empty_index_root_counterexample:
  "e_size list_engine (index emptied_index) = 0
   \<and> GetStorageInfo list_engine 20 emptied_index False
       = Some (Inr (emptied_info, emptied_persisted_index))
   \<and> info_root emptied_info = 1"
  by (simp add: GetStorageInfo_def PersistToDisk_def list_engine_def emptied_index_def
      emptied_persisted_index_def emptied_info_def GetInfo_def eval_write)

lemma HNSWIndex_new_unwritten:
  assumes "HNSWIndex_new U sbs nm ct first_ptr cfg None estimated_cardinality = Some (Inr s)"
  shows "\<not> is_dirty s" and "root_block_ptr s = 0" and "segments (linked_block_allocator s) = []"
  using assms by (auto simp: HNSWIndex_new_def Let_def split: if_splits)

lemma HNSWIndex_new_load:
  assumes "allocator_infos info = [ai]"
  shows "buffer_ids ai = []
           \<Longrightarrow> HNSWIndex_new U sbs nm NONE first_ptr cfg (Some info) estimated_cardinality
               = Some (Inr \<lparr>name = nm, index = e_make U cfg,
                            index_size = e_size U (e_make U cfg), is_dirty = False,
                            root_block_ptr = info_root info,
                            linked_block_allocator = Init ai\<rparr>)"
    and "buffer_ids ai \<noteq> []
           \<Longrightarrow> HNSWIndex_new U sbs nm NONE first_ptr cfg (Some info) estimated_cardinality
                 = Some (Inr s')
           \<Longrightarrow> e_load_from_stream U (e_make U cfg) (load_callback sbs (Init ai))
                 (LinkedBlockReader_new (info_root info)) = Some (Inr (index s'))"
  using assms
  by (auto simp: HNSWIndex_new_def Let_def split: option.splits sum.splits)

text \<open>
  Claim C3, amended. For every index that is not dirty, has a null root pointer and an
  allocator without blocks (a new index that was never modified), \<^verbatim>\<open>GetStorageInfo\<close> leaves
  the index as it is and returns a descriptor with root pointer 0 and allocator metadata
  without buffers; the constructor, given that descriptor, deserializes nothing and returns an
  index whose engine is the engine as made, with no element when a new engine has none, an
  element count of 0, not dirty, with a null root pointer. For every descriptor the
  constructor calls \<^verbatim>\<open>load_from_stream\<close> exactly when the allocator metadata lists a buffer;
  otherwise the engine stays as made.
\<close>

theorem unwritten_index_round_trip:
  assumes "\<not> is_dirty s" and "root_block_ptr s = 0"
    and "segments (linked_block_allocator s) = []"
    and "e_size U (e_make U cfg) = 0"
  shows "(\<exists>info s'. GetStorageInfo U sbs s get_buffers = Some (Inr (info, s))
           \<and> info_root info = 0
           \<and> allocator_infos info = [GetInfo (linked_block_allocator s)]
           \<and> buffer_ids (GetInfo (linked_block_allocator s)) = []
           \<and> HNSWIndex_new U sbs nm NONE first_ptr cfg (Some info) estimated_cardinality
               = Some (Inr s')
           \<and> index s' = e_make U cfg
           \<and> e_size U (index s') = 0 \<and> index_size s' = 0
           \<and> \<not> is_dirty s' \<and> root_block_ptr s' = 0
           \<and> linked_block_allocator s' = linked_block_allocator s)
       \<and> (\<forall>info ai s'. allocator_infos info = [ai]
             \<longrightarrow> HNSWIndex_new U sbs nm NONE first_ptr cfg (Some info) estimated_cardinality
                   = Some (Inr s')
             \<longrightarrow> (if buffer_ids ai = [] then index s' = e_make U cfg
                  else e_load_from_stream U (e_make U cfg) (load_callback sbs (Init ai))
                         (LinkedBlockReader_new (info_root info)) = Some (Inr (index s'))))"
proof -
  have 1: "\<exists>info s'. GetStorageInfo U sbs s get_buffers = Some (Inr (info, s))
           \<and> info_root info = 0
           \<and> allocator_infos info = [GetInfo (linked_block_allocator s)]
           \<and> buffer_ids (GetInfo (linked_block_allocator s)) = []
           \<and> HNSWIndex_new U sbs nm NONE first_ptr cfg (Some info) estimated_cardinality
               = Some (Inr s')
           \<and> index s' = e_make U cfg
           \<and> e_size U (index s') = 0 \<and> index_size s' = 0
           \<and> \<not> is_dirty s' \<and> root_block_ptr s' = 0
           \<and> linked_block_allocator s' = linked_block_allocator s"
    using assms
    by (simp add: GetStorageInfo_def PersistToDisk_def HNSWIndex_new_def GetInfo_def Init_def
        Let_def)
  have 2: "if buffer_ids ai = [] then index s' = e_make U cfg
           else e_load_from_stream U (e_make U cfg) (load_callback sbs (Init ai))
                  (LinkedBlockReader_new (info_root info)) = Some (Inr (index s'))"
    if "allocator_infos info = [ai]"
      and "HNSWIndex_new U sbs nm NONE first_ptr cfg (Some info) estimated_cardinality
             = Some (Inr s')"
    for info ai s'
  proof (cases "buffer_ids ai = []")
    case True
    from HNSWIndex_new_load(1)[OF that(1) True, of U sbs nm first_ptr cfg estimated_cardinality]
      that(2)
    show ?thesis using True by simp
  next
    case False
    from HNSWIndex_new_load(2)[OF that(1) False that(2)]
    show ?thesis using False by simp
  qed
  show ?thesis using 1 2 by blast
qed

theorem unwritten_index_round_trip_witness:
  "\<not> is_dirty new_index \<and> root_block_ptr new_index = 0
   \<and> segments (linked_block_allocator new_index) = []
   \<and> e_size list_engine (e_make list_engine ()) = 0
   \<and> (\<exists>info s'. GetStorageInfo list_engine 20 new_index False = Some (Inr (info, new_index))
           \<and> info_root info = 0
           \<and> allocator_infos info = [GetInfo (linked_block_allocator new_index)]
           \<and> buffer_ids (GetInfo (linked_block_allocator new_index)) = []
           \<and> HNSWIndex_new list_engine 20 ''idx'' NONE 1 () (Some info) 0 = Some (Inr s')
           \<and> index s' = e_make list_engine ()
           \<and> e_size list_engine (index s') = 0 \<and> index_size s' = 0
           \<and> \<not> is_dirty s' \<and> root_block_ptr s' = 0
           \<and> linked_block_allocator s' = linked_block_allocator new_index)"
proof -
  have h1: "\<not> is_dirty new_index" by (simp add: new_index_def)
  have h2: "root_block_ptr new_index = 0" by (simp add: new_index_def)
  have h3: "segments (linked_block_allocator new_index) = []" by (simp add: new_index_def)
  have h4: "e_size list_engine (e_make list_engine ()) = 0" by (simp add: list_engine_def)
  show ?thesis
    by (intro conjI h1 h2 h3 h4 unwritten_index_round_trip[OF h1 h2 h3 h4, THEN conjunct1])
qed

section \<open>Batch insertion\<close>

lemma Construct_loop_contract:
  assumes "add_contract U" and "Construct_loop U e rows thread_idx = Inr e'"
  shows "e_size U e' = e_size U e + length rows \<and> e_capacity U e' = e_capacity U e
       \<and> (\<forall>j. e_contains U e' j \<longleftrightarrow> e_contains U e j \<or> j \<in> fst ` set rows)"
  using assms(2)
proof (induction rows arbitrary: e)
  case Nil
  then show ?case by simp
next
  case (Cons row rows)
  obtain k v where row: "row = (k, v)" by (cases row)
  obtain res e1 where a: "e_add U e k v thread_idx = (res, e1)" by (cases "e_add U e k v thread_idx")
  from Cons.prems row a have res: "res = None" and rest: "Construct_loop U e1 rows thread_idx = Inr e'"
    by (auto split: option.splits)
  from assms(1) a res have 1: "e_size U e1 = Suc (e_size U e)" "e_capacity U e1 = e_capacity U e"
    "\<forall>j. e_contains U e1 j \<longleftrightarrow> j = k \<or> e_contains U e j"
    unfolding add_contract_def by blast+
  from Cons.IH[OF rest] 1 row show ?case by auto
qed

lemma Construct_loop_failure:
  assumes "Construct_loop U e pre thread_idx = Inr e1"
    and "e_add U e1 rowid v thread_idx = (Some what, e2)"
  shows "Construct_loop U e (pre @ (rowid, v) # post) thread_idx = Inl (what, e2)"
  using assms(1)
proof (induction pre arbitrary: e)
  case Nil
  then show ?case using assms(2) by simp
next
  case (Cons row pre)
  obtain k x where row: "row = (k, x)" by (cases row)
  obtain res e' where a: "e_add U e k x thread_idx = (res, e')" by (cases "e_add U e k x thread_idx")
  from Cons.prems row a have "res = None" "Construct_loop U e' pre thread_idx = Inr e1"
    by (auto split: option.splits)
  then show ?case using Cons.IH row a by simp
qed

lemma Construct_loop_failure_split:
  assumes "Construct_loop U e rows thread_idx = Inl (what, e2)"
  shows "\<exists>pre rowid v post e1. rows = pre @ (rowid, v) # post
           \<and> Construct_loop U e pre thread_idx = Inr e1
           \<and> e_add U e1 rowid v thread_idx = (Some what, e2)"
  using assms
proof (induction rows arbitrary: e)
  case Nil
  then show ?case by simp
next
  case (Cons row rows)
  obtain k x where row: "row = (k, x)" by (cases row)
  obtain res e' where a: "e_add U e k x thread_idx = (res, e')" by (cases "e_add U e k x thread_idx")
  show ?case
  proof (cases res)
    case None
    with Cons.prems row a have "Construct_loop U e' rows thread_idx = Inl (what, e2)" by simp
    from Cons.IH[OF this] obtain pre rowid v post e1 where
      p: "rows = pre @ (rowid, v) # post" "Construct_loop U e' pre thread_idx = Inr e1"
         "e_add U e1 rowid v thread_idx = (Some what, e2)"
      by blast
    have "row # rows = (row # pre) @ (rowid, v) # post" using p(1) by simp
    moreover have "Construct_loop U e (row # pre) thread_idx = Inr e1"
      using row a None p(2) by simp
    ultimately show ?thesis using p(3) by blast
  next
    case (Some w)
    with Cons.prems row a have "w = what" "e' = e2" by simp_all
    then have "row # rows = [] @ (k, x) # rows \<and> Construct_loop U e [] thread_idx = Inr e
        \<and> e_add U e k x thread_idx = (Some what, e2)"
      using row a Some by simp
    then show ?thesis by blast
  qed
qed

lemma Construct_resize_fields:
  "is_dirty (Construct_resize U s n)"
  "index_size (Construct_resize U s n) = index_size s + n"
  "index (Construct_resize U s n)
     = (if e_capacity U (index s) < index_size s + n
        then e_reserve U (index s) (NextPowerOfTwo (index_size s + n)) else index s)"
  by (simp_all add: Construct_resize_def Let_def)

lemma Construct_Inr:
  assumes "Construct U s rows thread_idx = Inr s'"
  shows "Construct_loop U (index (Construct_resize U s (length rows))) rows thread_idx
           = Inr (index s')"
    and "index_size s' = index_size s + length rows"
    and "is_dirty s'"
  using assms
  by (auto simp: Construct_def Let_def Construct_resize_fields split: sum.splits prod.splits)

lemma Construct_loop_locks_Inr:
  "Construct_loop U e rows thread_idx = Inr e'
     \<Longrightarrow> Construct_loop_locks U e rows thread_idx
           = map (\<lambda>(k, v). (SharedLock, Add k)) rows"
proof (induction rows arbitrary: e)
  case Nil
  then show ?case by simp
next
  case (Cons row rows)
  obtain k v where row: "row = (k, v)" by (cases row)
  obtain res e1 where a: "e_add U e k v thread_idx = (res, e1)" by (cases "e_add U e k v thread_idx")
  from Cons.prems row a have res: "res = None" and rest: "Construct_loop U e1 rows thread_idx = Inr e'"
    by (auto split: option.splits)
  from Cons.IH[OF rest] row a res show ?case by simp
qed

lemma Construct_locks_resize:
  assumes "e_capacity U (index s) < index_size s + length rows"
    and "Construct U s rows thread_idx = Inr s'"
  shows "Construct_locks U s rows thread_idx
           = [(SharedLock, CheckCapacity True), (ExclusiveLock, CheckCapacity True),
              (ExclusiveLock, Reserve (NextPowerOfTwo (index_size s + length rows)))]
             @ map (\<lambda>(k, v). (SharedLock, Add k)) rows"
  using assms(1) Construct_loop_locks_Inr[OF Construct_Inr(1)[OF assms(2)]]
  by (simp add: Construct_locks_def Let_def)

text \<open>
  Claim C4, as stated, fails in two places. A search whose limit is at least the size \<open>N\<close>
  of the batch need not find the inserted rows: after a batch that holds row 6 alone, into
  the index that holds row 5 and has capacity 1, the index holds two elements, and the search
  with limit 1 returns row 5 alone. And the capacity is not grown to the next power of two
  at or above the new element count, but at or above the element-count field: the index
  left by the batch that failed holds one element and counts three; a batch of six rows then
  gives it seven elements, for which the next power of two is 8, and capacity 16, the next
  power of two at or above 9.
\<close>

theorem capacity_growth_counterexample:
  "e_capacity list_engine (index inserted_index) = 1
   \<and> e_size list_engine (index inserted_index) = 1
   \<and> Construct list_engine inserted_index [(6, [1])] 0 = Inr second_batch_index
   \<and> e_size list_engine (index second_batch_index) = 2
   \<and> InitializeScan list_engine second_batch_index [0] 1 = [5]
   \<and> Construct list_engine new_index [(5, [1]), (6, []), (7, [3])] 0
       = Inl (InternalException ''Failed to add to the HNSW index: invalid vector'',
              failed_batch_index)
   \<and> e_capacity list_engine (index failed_batch_index) = 4
   \<and> e_size list_engine (index failed_batch_index) = 1
   \<and> Construct list_engine failed_batch_index
        [(10, [1]), (11, [1]), (12, [1]), (13, [1]), (14, [1]), (15, [1])] 0
       = Inr overgrown_index
   \<and> e_size list_engine (index overgrown_index) = 7
   \<and> NextPowerOfTwo 7 = 8
   \<and> e_capacity list_engine (index overgrown_index) = 16"
proof -
  have 1: "e_capacity list_engine (index inserted_index) = 1"
    and 2: "e_size list_engine (index inserted_index) = 1"
    by (simp_all add: list_engine_def inserted_index_def)
  have 3: "e_size list_engine (index second_batch_index) = 2"
    and 4: "InitializeScan list_engine second_batch_index [0] 1 = [5]"
    by (simp_all add: InitializeScan_def list_engine_def second_batch_index_def)
  have 5: "e_capacity list_engine (index failed_batch_index) = 4"
    and 6: "e_size list_engine (index failed_batch_index) = 1"
    by (simp_all add: list_engine_def failed_batch_index_def)
  have 7: "e_size list_engine (index overgrown_index) = 7"
    and 8: "e_capacity list_engine (index overgrown_index) = 16"
    by (simp_all add: list_engine_def overgrown_index_def)
  show ?thesis
    by (intro conjI 1 2 second_batch_index_made 3 4 failed_batch_index_made 5 6
        overgrown_index_made 7 NextPowerOfTwo_7 8)
qed

text \<open>
  Claim C4, amended. For an engine that meets the contract and an index whose element-count
  field equals the engine's element count: when a batch of \<open>N\<close> rows makes the element count
  exceed the capacity and \<^verbatim>\<open>Construct\<close> completes, it has compared the count with the
  capacity under the shared lock, compared them again under the exclusive lock, reserved
  \<^verbatim>\<open>NextPowerOfTwo\<close> of the new element count under the exclusive lock, and then inserted
  the rows, in order, under the shared lock; the capacity afterwards is that number, a power
  of two, at least the new count, and the least such power; the element count is the prior
  count plus \<open>N\<close>, in the engine and in the field; the capacity is at least the count; every
  inserted row identifier is held by the engine and is returned by every search whose limit is
  at least the element count after the insertion.
\<close>

theorem Construct_capacity_growth:
  assumes "add_contract U" and "reserve_contract U" and "search_contract U"
    and "index_size s = e_size U (index s)"
    and "e_capacity U (index s) < e_size U (index s) + length rows"
    and "Construct U s rows thread_idx = Inr s'"
  shows "Construct_locks U s rows thread_idx
           = [(SharedLock, CheckCapacity True), (ExclusiveLock, CheckCapacity True),
              (ExclusiveLock, Reserve (NextPowerOfTwo (e_size U (index s) + length rows)))]
             @ map (\<lambda>(k, v). (SharedLock, Add k)) rows
       \<and> Construct_loop U
           (e_reserve U (index s) (NextPowerOfTwo (e_size U (index s) + length rows)))
           rows thread_idx = Inr (index s')
       \<and> e_capacity U (index s') = NextPowerOfTwo (e_size U (index s) + length rows)
       \<and> (\<exists>j. e_capacity U (index s') = 2 ^ j)
       \<and> (\<forall>j. e_size U (index s) + length rows \<le> 2 ^ j \<longrightarrow> e_capacity U (index s') \<le> 2 ^ j)
       \<and> e_size U (index s') = e_size U (index s) + length rows
       \<and> index_size s' = e_size U (index s')
       \<and> e_size U (index s') \<le> e_capacity U (index s')
       \<and> (\<forall>(k, v) \<in> set rows. e_contains U (index s') k)
       \<and> (\<forall>query limit. e_size U (index s') \<le> limit
             \<longrightarrow> (\<forall>(k, v) \<in> set rows. k \<in> set (InitializeScan U s' query limit)))"
proof -
  let ?n = "e_size U (index s) + length rows"
  let ?e = "e_reserve U (index s) (NextPowerOfTwo ?n)"
  have e: "index (Construct_resize U s (length rows)) = ?e"
    using assms(4,5) by (simp add: Construct_resize_fields)
  have 0: "Construct_locks U s rows thread_idx
           = [(SharedLock, CheckCapacity True), (ExclusiveLock, CheckCapacity True),
              (ExclusiveLock, Reserve (NextPowerOfTwo ?n))]
             @ map (\<lambda>(k, v). (SharedLock, Add k)) rows"
    using Construct_locks_resize[of U s rows thread_idx s'] assms(4,5,6) by simp
  note C = Construct_Inr[OF assms(6)]
  have 1: "Construct_loop U ?e rows thread_idx = Inr (index s')" using C(1) e by simp
  have le: "e_capacity U (index s) \<le> NextPowerOfTwo ?n"
    using assms(5) NextPowerOfTwo_ge[of ?n] by simp
  from assms(2) le have r: "e_size U ?e = e_size U (index s)"
    "e_capacity U ?e = NextPowerOfTwo ?n"
    unfolding reserve_contract_def by blast+
  note L = Construct_loop_contract[OF assms(1) 1]
  have 2: "e_capacity U (index s') = NextPowerOfTwo ?n" using L r by simp
  have 3: "\<exists>j. e_capacity U (index s') = 2 ^ j" unfolding 2 NextPowerOfTwo_def by blast
  have 4: "\<forall>j. ?n \<le> 2 ^ j \<longrightarrow> e_capacity U (index s') \<le> 2 ^ j"
    unfolding 2 using NextPowerOfTwo_least by blast
  have 5: "e_size U (index s') = ?n" using L r by simp
  have 6: "index_size s' = e_size U (index s')" using C(2) assms(4) 5 by simp
  have 7: "e_size U (index s') \<le> e_capacity U (index s')"
    unfolding 5 2 by (rule NextPowerOfTwo_ge)
  have 8: "\<forall>(k, v) \<in> set rows. e_contains U (index s') k" using L by force
  have 9: "\<forall>query limit. e_size U (index s') \<le> limit
             \<longrightarrow> (\<forall>(k, v) \<in> set rows. k \<in> set (InitializeScan U s' query limit))"
    using 8 assms(3) unfolding search_contract_def InitializeScan_def by blast
  show ?thesis by (intro conjI 0 1 2 3 4 5 6 7 8 9)
qed

theorem Construct_capacity_growth_witness:
  "add_contract list_engine \<and> reserve_contract list_engine \<and> search_contract list_engine
   \<and> index_size new_index = e_size list_engine (index new_index)
   \<and> e_capacity list_engine (index new_index)
        < e_size list_engine (index new_index) + length [(5::row_t, [1]), (6, [2]), (7, [3::int])]
   \<and> Construct list_engine new_index [(5, [1]), (6, [2]), (7, [3])] 0 = Inr batch_index
   \<and> Construct_locks list_engine new_index [(5, [1]), (6, [2]), (7, [3])] 0
       = [(SharedLock, CheckCapacity True), (ExclusiveLock, CheckCapacity True),
          (ExclusiveLock, Reserve 4),
          (SharedLock, Add 5), (SharedLock, Add 6), (SharedLock, Add 7)]
   \<and> e_capacity list_engine (index batch_index) = 4
   \<and> e_size list_engine (index batch_index) = 3
   \<and> index_size batch_index = 3
   \<and> set (InitializeScan list_engine batch_index [0] 3) = {5, 6, 7}"
proof -
  have h4: "index_size new_index = e_size list_engine (index new_index)"
    by (simp add: new_index_def list_engine_def)
  have h5: "e_capacity list_engine (index new_index)
        < e_size list_engine (index new_index) + length [(5::row_t, [1]), (6, [2]), (7, [3::int])]"
    by (simp add: new_index_def list_engine_def)
  have sz0: "e_size list_engine (index new_index) = 0" by (simp add: new_index_def list_engine_def)
  have scan: "set (InitializeScan list_engine batch_index [0] 3) = {5, 6, 7}"
    by (simp add: InitializeScan_def list_engine_def batch_index_def)
  note T = Construct_capacity_growth[OF list_engine_add_contract list_engine_reserve_contract
      list_engine_search_contract h4 h5 batch_index_made]
  from T have locks: "Construct_locks list_engine new_index [(5, [1]), (6, [2]), (7, [3])] 0
       = [(SharedLock, CheckCapacity True), (ExclusiveLock, CheckCapacity True),
          (ExclusiveLock, Reserve 4),
          (SharedLock, Add 5), (SharedLock, Add 6), (SharedLock, Add 7)]"
    by (simp add: sz0 NextPowerOfTwo_Suc_3)
  from T
  have "e_capacity list_engine (index batch_index) = NextPowerOfTwo 3"
    and "e_size list_engine (index batch_index) = 3"
    and "index_size batch_index = e_size list_engine (index batch_index)"
    by (simp_all add: sz0 numeral_3_eq_3)
  then show ?thesis
    using list_engine_add_contract list_engine_reserve_contract list_engine_search_contract
      h4 h5 batch_index_made scan locks
    by (simp add: NextPowerOfTwo_3)
qed

text \<open>
  Claim C7. When the rows before some row of a batch are inserted and the engine reports a
  failure for that row, \<^verbatim>\<open>Construct\<close> throws an \<open>InternalException\<close> that carries the
  engine's message, and leaves the index with the engine as it is after those insertions and
  the failed call: nothing is rolled back, the rows after the failing one are not tried, and,
  for an engine that meets the contract, every row identifier inserted earlier in the batch is
  still held.
\<close>

theorem Construct_failure_no_rollback:
  assumes "rows = pre @ (rowid, v) # post"
    and "Construct_loop U (index (Construct_resize U s (length rows))) pre thread_idx = Inr e1"
    and "e_add U e1 rowid v thread_idx = (Some what, e2)"
  shows "Construct U s rows thread_idx
           = Inl (InternalException (''Failed to add to the HNSW index: '' @ what),
                  (Construct_resize U s (length rows))\<lparr>index := e2\<rparr>)
       \<and> (add_contract U \<longrightarrow> (\<forall>(k, x) \<in> set pre. e_contains U e2 k))"
proof -
  have "Construct_loop U (index (Construct_resize U s (length rows))) rows thread_idx
          = Inl (what, e2)"
    unfolding assms(1)[symmetric, THEN arg_cong[where f = length]]
    using Construct_loop_failure[OF assms(2,3), of post] assms(1) by simp
  then have 1: "Construct U s rows thread_idx
           = Inl (InternalException (''Failed to add to the HNSW index: '' @ what),
                  (Construct_resize U s (length rows))\<lparr>index := e2\<rparr>)"
    by (simp add: Construct_def Let_def)
  have 2: "\<forall>(k, x) \<in> set pre. e_contains U e2 k" if c: "add_contract U"
  proof -
    from Construct_loop_contract[OF c assms(2)]
    have "\<forall>(k, x) \<in> set pre. e_contains U e1 k" by force
    moreover from c assms(3) have "\<And>j. e_contains U e1 j \<Longrightarrow> e_contains U e2 j"
      unfolding add_contract_def by blast
    ultimately show ?thesis by blast
  qed
  show ?thesis using 1 2 by blast
qed

theorem Construct_failure_no_rollback_witness:
  "[(5::row_t, [1]), (6, []), (7, [3::int])] = [(5, [1])] @ (6, []) # [(7, [3])]
   \<and> Construct_loop list_engine
        (index (Construct_resize list_engine new_index
                  (length [(5::row_t, [1]), (6, []), (7, [3::int])])))
        [(5, [1])] 0 = Inr \<lparr>le_keys = [5], le_capacity = 4\<rparr>
   \<and> e_add list_engine \<lparr>le_keys = [5], le_capacity = 4\<rparr> 6 [] 0
        = (Some ''invalid vector'', \<lparr>le_keys = [5], le_capacity = 4\<rparr>)
   \<and> Construct list_engine new_index [(5, [1]), (6, []), (7, [3])] 0
        = Inl (InternalException ''Failed to add to the HNSW index: invalid vector'',
               failed_batch_index)
   \<and> e_contains list_engine (index failed_batch_index) 5"
proof -
  let ?rows = "[(5::row_t, [1]), (6, []), (7, [3::int])]"
  let ?e1 = "\<lparr>le_keys = [5], le_capacity = 4\<rparr>"
  have h1: "?rows = [(5, [1])] @ (6, []) # [(7, [3])]"
    by simp
  have len: "length ?rows = 3" by simp
  have rs: "Construct_resize list_engine new_index 3
      = \<lparr>name = ''idx'', index = \<lparr>le_keys = [], le_capacity = 4\<rparr>, index_size = 3,
         is_dirty = True, root_block_ptr = 0,
         linked_block_allocator =
        \<lparr>segments = [], first_pointer = 1, unowned = fresh_memory 20\<rparr>\<rparr>"
    by (simp add: Construct_resize_def list_engine_def new_index_def NextPowerOfTwo_3 Let_def)
  have h2: "Construct_loop list_engine (index (Construct_resize list_engine new_index (length ?rows)))
        [(5, [1])] 0 = Inr ?e1"
    unfolding len rs by (simp add: list_engine_def)
  have h3: "e_add list_engine ?e1 6 [] 0 = (Some ''invalid vector'', ?e1)"
    by (simp add: list_engine_def)
  have st: "(Construct_resize list_engine new_index (length ?rows))\<lparr>index := ?e1\<rparr>
              = failed_batch_index"
    unfolding len rs by (simp add: failed_batch_index_def)
  have msg: "''Failed to add to the HNSW index: '' @ ''invalid vector''
               = ''Failed to add to the HNSW index: invalid vector''"
    by simp
  note T = Construct_failure_no_rollback[OF h1 h2 h3, unfolded st msg]
  have c1: "Construct list_engine new_index ?rows 0
        = Inl (InternalException ''Failed to add to the HNSW index: invalid vector'',
               failed_batch_index)"
    using T by (rule conjunct1)
  have c2: "e_contains list_engine (index failed_batch_index) 5"
    by (simp add: list_engine_def failed_batch_index_def)
  show ?thesis by (intro conjI h1 h2 h3 c1 c2)
qed

section \<open>The element count and the dirty flag\<close>





text \<open>
  Claim C6. Every \<^verbatim>\<open>Construct\<close> (also through \<^verbatim>\<open>Insert\<close> and \<^verbatim>\<open>Append\<close>), \<^verbatim>\<open>Delete\<close> and
  \<^verbatim>\<open>Compact\<close> that completes leaves the index dirty.
\<close>

theorem mutations_mark_dirty:
  "(Construct U s rows thread_idx = Inr s' \<longrightarrow> is_dirty s')
   \<and> (Insert U any_thread s rows = Inr s' \<longrightarrow> is_dirty s')
   \<and> (Append U any_thread s rows = Inr s' \<longrightarrow> is_dirty s')
   \<and> (Delete U s row_ids = Inr s' \<longrightarrow> is_dirty s')
   \<and> (Compact U s = Inr s' \<longrightarrow> is_dirty s')"
  by (auto simp: Construct_def Construct_resize_def Insert_def Append_def Delete_def
      Compact_def Let_def split: sum.splits prod.splits option.splits if_splits)

theorem mutations_mark_dirty_witness:
  "Construct list_engine new_index [(5, [1])] 0 = Inr inserted_index \<and> is_dirty inserted_index
   \<and> Delete list_engine persisted_index [5] = Inr emptied_index \<and> is_dirty emptied_index
   \<and> Compact list_engine persisted_index = Inr (persisted_index\<lparr>is_dirty := True\<rparr>)
   \<and> is_dirty (persisted_index\<lparr>is_dirty := True\<rparr>)"
proof -
  have c: "Compact list_engine persisted_index = Inr (persisted_index\<lparr>is_dirty := True\<rparr>)"
    by (simp add: Compact_def list_engine_def persisted_index_def)
  have 1: "is_dirty inserted_index"
    using mutations_mark_dirty[of list_engine new_index "[(5, [1])]" 0 inserted_index]
      inserted_index_made by blast
  have 2: "is_dirty emptied_index"
    using mutations_mark_dirty[of list_engine persisted_index _ _ emptied_index _ "[5]"]
      emptied_index_made by blast
  have 3: "is_dirty (persisted_index\<lparr>is_dirty := True\<rparr>)"
    using mutations_mark_dirty[of list_engine persisted_index _ _
        "persisted_index\<lparr>is_dirty := True\<rparr>"] c by blast
  show ?thesis using inserted_index_made emptied_index_made c 1 2 3 by blast
qed

section \<open>Deletion\<close>

lemma Delete_loop_Cons:
  "Delete_loop U e (r # row_ids) = Delete_loop U (snd (e_remove U e r)) row_ids"
  by (simp add: split_beta)

lemma Delete_loop_keeps_absent:
  assumes "remove_contract U"
  shows "\<not> e_contains U e k \<Longrightarrow> \<not> e_contains U (Delete_loop U e row_ids) k"
proof (induction row_ids arbitrary: e)
  case Nil
  then show ?case by simp
next
  case (Cons r row_ids)
  have "\<not> e_contains U (snd (e_remove U e r)) k"
    using assms Cons.prems unfolding remove_contract_def by blast
  then show ?case unfolding Delete_loop_Cons by (rule Cons.IH)
qed

lemma Delete_loop_absent:
  assumes "remove_contract U"
  shows "k \<in> set row_ids \<Longrightarrow> \<not> e_contains U (Delete_loop U e row_ids) k"
proof (induction row_ids arbitrary: e)
  case Nil
  then show ?case by simp
next
  case (Cons r row_ids)
  show ?case
  proof (cases "k = r")
    case True
    have "\<not> e_contains U (snd (e_remove U e r)) r"
      using assms unfolding remove_contract_def by blast
    then show ?thesis
      unfolding Delete_loop_Cons True by (rule Delete_loop_keeps_absent[OF assms])
  next
    case False
    then have "k \<in> set row_ids" using Cons.prems by simp
    then show ?thesis unfolding Delete_loop_Cons by (rule Cons.IH)
  qed
qed

lemma Delete_loop_noop:
  assumes "remove_contract U"
  shows "(\<And>k. k \<in> set row_ids \<Longrightarrow> \<not> e_contains U e k) \<Longrightarrow> Delete_loop U e row_ids = e"
proof (induction row_ids)
  case Nil
  then show ?case by simp
next
  case (Cons r row_ids)
  have "\<not> e_contains U e r" using Cons.prems by simp
  then have 1: "snd (e_remove U e r) = e"
    using assms unfolding remove_contract_def by blast
  have 2: "Delete_loop U e row_ids = e" using Cons by simp
  show ?case unfolding Delete_loop_Cons 1 2 ..
qed

lemma Delete_loop_append:
  "Delete_loop U e (xs @ ys) = Delete_loop U (Delete_loop U e xs) ys"
proof (induction xs arbitrary: e)
  case Nil
  then show ?case by simp
next
  case (Cons x xs)
  show ?case unfolding append_Cons Delete_loop_Cons by (rule Cons.IH)
qed

lemma Delete_eq:
  "Delete U s row_ids
     = Inr (s\<lparr>is_dirty := True, index := Delete_loop U (index s) row_ids,
              index_size := e_size U (Delete_loop U (index s) row_ids)\<rparr>)"
  by (simp add: Delete_def Let_def)

text \<open>
  Claim C8. \<^verbatim>\<open>Delete\<close> returns for every list of row identifiers and every engine,
  whatever \<^verbatim>\<open>index.remove\<close> reports, with the engine that the removals leave. For an
  engine that meets the contract, none of the identifiers is held afterwards; deleting the
  same identifiers a second time returns and leaves the index exactly as the first deletion
  left it, as does a single call that lists every identifier twice; so every search after two
  deletions returns what it returns after one.
\<close>

theorem Delete_idempotent:
  "\<exists>s'. Delete U s row_ids = Inr s'
      \<and> index s' = Delete_loop U (index s) row_ids
      \<and> (remove_contract U \<longrightarrow>
            (\<forall>k \<in> set row_ids. \<not> e_contains U (index s') k)
          \<and> Delete U s' row_ids = Inr s'
          \<and> Delete U s (row_ids @ row_ids) = Inr s'
          \<and> (\<forall>s'' query limit. Delete U s' row_ids = Inr s''
                \<longrightarrow> InitializeScan U s'' query limit = InitializeScan U s' query limit))"
proof -
  define e where "e = Delete_loop U (index s) row_ids"
  define s' where "s' = s\<lparr>is_dirty := True, index := e, index_size := e_size U e\<rparr>"
  have 1: "Delete U s row_ids = Inr s'" unfolding Delete_eq s'_def e_def ..
  have 0: "index s' = Delete_loop U (index s) row_ids" by (simp add: s'_def e_def)
  have rest: "(\<forall>k \<in> set row_ids. \<not> e_contains U (index s') k)
          \<and> Delete U s' row_ids = Inr s'
          \<and> Delete U s (row_ids @ row_ids) = Inr s'
          \<and> (\<forall>s'' query limit. Delete U s' row_ids = Inr s''
                \<longrightarrow> InitializeScan U s'' query limit = InitializeScan U s' query limit)"
    if c: "remove_contract U"
  proof -
    have abs: "\<not> e_contains U e k" if "k \<in> set row_ids" for k
      unfolding e_def using that by (rule Delete_loop_absent[OF c])
    have noop: "Delete_loop U e row_ids = e" using abs by (rule Delete_loop_noop[OF c])
    have 2: "Delete U s' row_ids = Inr s'" unfolding Delete_eq by (simp add: s'_def noop)
    have 3: "Delete U s (row_ids @ row_ids) = Inr s'"
      unfolding Delete_eq Delete_loop_append by (simp add: s'_def e_def[symmetric] noop)
    have 4: "\<forall>k \<in> set row_ids. \<not> e_contains U (index s') k" using abs by (simp add: s'_def)
    have 5: "\<forall>s'' query limit. Delete U s' row_ids = Inr s''
                 \<longrightarrow> InitializeScan U s'' query limit = InitializeScan U s' query limit"
      unfolding 2 by simp
    show ?thesis using 4 2 3 5 by blast
  qed
  show ?thesis using 1 0 rest by blast
qed

theorem Delete_idempotent_witness:
  "remove_contract list_engine
   \<and> fst (e_remove list_engine (index persisted_index) 9) = Some ''missing key''
   \<and> Delete list_engine persisted_index [9, 5] = Inr emptied_index
   \<and> e_contains list_engine (index emptied_index) 9 = False
   \<and> e_contains list_engine (index emptied_index) 5 = False
   \<and> Delete list_engine emptied_index [9, 5] = Inr emptied_index
   \<and> Delete list_engine persisted_index ([9, 5] @ [9, 5]) = Inr emptied_index"
proof -
  have m: "fst (e_remove list_engine (index persisted_index) 9) = Some ''missing key''"
    by (simp add: list_engine_def persisted_index_def)
  have d: "Delete list_engine persisted_index [9, 5] = Inr emptied_index"
    by (simp add: Delete_def list_engine_def persisted_index_def emptied_index_def)
  from Delete_idempotent[of list_engine persisted_index "[9, 5]"] d list_engine_remove_contract
  have "(\<forall>k \<in> set [9, 5]. \<not> e_contains list_engine (index emptied_index) k)
      \<and> Delete list_engine emptied_index [9, 5] = Inr emptied_index
      \<and> Delete list_engine persisted_index ([9, 5] @ [9, 5]) = Inr emptied_index"
    by auto
  then show ?thesis using list_engine_remove_contract m d by simp
qed

end
